theory Spec2Isabelle
  imports Main "HOL-Library.Sublist"
begin

section \<open>The cleanup orchestrator (\<open>CleanerThread.run\<close>)\<close>

text \<open>
  A task is a name and a zero-argument callable. The callable works on the machine (files,
  recycle bin), so it is a function of a world state \<open>'w\<close>; it either returns a Python
  value or raises. Of an exception the model keeps what the handlers of this program
  look at: whether it is an instance of \<open>Exception\<close> (\<open>OSError\<close>, \<open>TypeError\<close>,
  \<open>OverflowError\<close>, ...), which \<open>except Exception\<close> catches, or not (\<open>SystemExit\<close>,
  \<open>KeyboardInterrupt\<close>, \<open>GeneratorExit\<close>), which it lets through.

  The values a task can hand back: \<open>None\<close>, an integer, a boolean, or some other object,
  of which the model keeps the truth value and what \<open>int()\<close> makes of it (\<open>None\<close> when
  \<open>int()\<close> rejects it with a \<open>TypeError\<close> or a \<open>ValueError\<close>): a float, a string, a list.
\<close>

datatype exc = Exc | BaseExc

datatype 'a outcome = Returns 'a | Raises exc

datatype pyval = PyNone | PyInt int | PyBool bool | PyObj bool "int option"

type_synonym 'w callable = "'w \<Rightarrow> pyval outcome \<times> 'w"

type_synonym 'w task = "string \<times> 'w callable"

fun truthy :: "pyval \<Rightarrow> bool" where
  "truthy PyNone = False"
| "truthy (PyInt n) = (n \<noteq> 0)"
| "truthy (PyBool b) = b"
| "truthy (PyObj b c) = b"

text \<open>\<open>func() or 0\<close>\<close>

definition or_zero :: "pyval \<Rightarrow> pyval" where
  "or_zero v = (if truthy v then v else PyInt 0)"

text \<open>\<open>int(v)\<close>\<close>

fun py_int :: "pyval \<Rightarrow> int outcome" where
  "py_int (PyInt n) = Returns n"
| "py_int (PyBool b) = Returns (if b then 1 else 0)"
| "py_int PyNone = Raises Exc"
| "py_int (PyObj b None) = Raises Exc"
| "py_int (PyObj b (Some n)) = Returns n"

text \<open>
  The \<open>try\<close> block of the loop body: \<open>freed = int(func() or 0)\<close>, with \<open>freed = 0\<close> in
  the handler \<open>except Exception\<close>. The handler covers the call and the conversion; an
  exception that is not an \<open>Exception\<close> passes through it.
\<close>

definition invoke :: "'w callable \<Rightarrow> 'w \<Rightarrow> int outcome \<times> 'w" where
  "invoke func w =
     (case func w of
        (Raises Exc, w') \<Rightarrow> (Returns 0, w')
      | (Raises BaseExc, w') \<Rightarrow> (Raises BaseExc, w')
      | (Returns v, w') \<Rightarrow>
          (case py_int (or_zero v) of
             Raises Exc \<Rightarrow> (Returns 0, w')
           | Raises BaseExc \<Rightarrow> (Raises BaseExc, w')
           | Returns n \<Rightarrow> (Returns n, w')))"

text \<open>
  The three signals of the worker thread are declared \<open>Signal(str, int, int)\<close>,
  \<open>Signal(int)\<close> and \<open>Signal(int)\<close>: an \<open>int\<close> argument of a signal is a C \<open>int\<close> of 32 bits,
  and \<open>emit\<close> converts the Python integer to it. What the binding does with a value
  outside the range is a parameter of the model: the conversion fails and \<open>emit\<close> raises
  \<open>OverflowError\<close>, or the value is delivered wrapped to 32 bits.
\<close>

datatype event = Stage string int int | Progress int | Done int

datatype overflow = Fails | Wraps

definition int32 :: "int \<Rightarrow> bool" where
  "int32 v = (- 2147483648 \<le> v \<and> v < 2147483648)"

definition wrap32 :: "int \<Rightarrow> int" where
  "wrap32 v = (v + 2147483648) mod 4294967296 - 2147483648"

definition to_c_int :: "overflow \<Rightarrow> int \<Rightarrow> int outcome" where
  "to_c_int pol v =
     (if int32 v then Returns v
      else (case pol of Fails \<Rightarrow> Raises Exc | Wraps \<Rightarrow> Returns (wrap32 v)))"

text \<open>\<open>self.stage.emit(name, i, steps)\<close>\<close>

definition emit_stage :: "overflow \<Rightarrow> string \<Rightarrow> nat \<Rightarrow> nat \<Rightarrow> event outcome" where
  "emit_stage pol name i steps =
     (case to_c_int pol (int i) of
        Raises e \<Rightarrow> Raises e
      | Returns a \<Rightarrow>
          (case to_c_int pol (int steps) of
             Raises e \<Rightarrow> Raises e
           | Returns b \<Rightarrow> Returns (Stage name a b)))"

text \<open>
  The \<open>for\<close> loop over \<open>enumerate(self.tasks, start=1)\<close>: \<open>i\<close> is the index of the next
  task, \<open>tot\<close> is \<open>total_freed\<close>. The two \<open>emit\<close> calls of the body stand outside the
  \<open>try\<close>: what they raise ends the loop and leaves \<open>run\<close>. The result is the signals
  delivered, in order; the total when the loop ran to its end, or the exception that
  ended it; and the world.
\<close>

fun run_loop :: "overflow \<Rightarrow> nat \<Rightarrow> nat \<Rightarrow> 'w task list \<Rightarrow> int \<Rightarrow> 'w \<Rightarrow> event list \<times> int outcome \<times> 'w" where
  "run_loop pol steps i [] tot w = ([], Returns tot, w)"
| "run_loop pol steps i ((name, func) # ts) tot w =
     (case emit_stage pol name i steps of
        Raises e \<Rightarrow> ([], Raises e, w)
      | Returns ev \<Rightarrow>
          (case invoke func w of
             (Raises e, w1) \<Rightarrow> ([ev], Raises e, w1)
           | (Returns freed, w1) \<Rightarrow>
               (case to_c_int pol (tot + max 0 freed) of
                  Raises e \<Rightarrow> ([ev], Raises e, w1)
                | Returns v \<Rightarrow>
                    (case run_loop pol steps (Suc i) ts (tot + max 0 freed) w1 of
                       (evs, r, w2) \<Rightarrow> (ev # Progress v # evs, r, w2)))))"

text \<open>
  \<open>run\<close>: the loop, then \<open>self.done.emit(total_freed)\<close>. The second component tells
  whether \<open>run\<close> returned or which exception left it.
\<close>

definition run :: "overflow \<Rightarrow> 'w task list \<Rightarrow> 'w \<Rightarrow> event list \<times> unit outcome \<times> 'w" where
  "run pol tasks w =
     (case run_loop pol (length tasks) 1 tasks 0 w of
        (evs, Raises e, w') \<Rightarrow> (evs, Raises e, w')
      | (evs, Returns tot, w') \<Rightarrow>
          (case to_c_int pol tot of
             Raises e \<Rightarrow> (evs, Raises e, w')
           | Returns v \<Rightarrow> (evs @ [Done v], Returns (), w')))"

text \<open>Reading a log of signals.\<close>

fun stage_of :: "event \<Rightarrow> (string \<times> int \<times> int) option" where
  "stage_of (Stage name i n) = Some (name, i, n)"
| "stage_of _ = None"

fun progress_of :: "event \<Rightarrow> int option" where
  "progress_of (Progress v) = Some v"
| "progress_of _ = None"

fun done_of :: "event \<Rightarrow> int option" where
  "done_of (Done v) = Some v"
| "done_of _ = None"

definition stages :: "event list \<Rightarrow> (string \<times> int \<times> int) list" where
  "stages evs = List.map_filter stage_of evs"

definition progresses :: "event list \<Rightarrow> int list" where
  "progresses evs = List.map_filter progress_of evs"

definition dones :: "event list \<Rightarrow> int list" where
  "dones evs = List.map_filter done_of evs"

text \<open>
  Three readings of a selection in a world, each following the tasks in order: the world
  in which the task after \<open>pre\<close> is invoked; whether every invocation comes back to the
  loop (no task raises past the handler); and the bytes the loop adds up.
\<close>

definition world_after :: "'w task list \<Rightarrow> 'w \<Rightarrow> 'w" where
  "world_after pre w = fold (\<lambda>t v. snd (invoke (snd t) v)) pre w"

fun quiet :: "'w task list \<Rightarrow> 'w \<Rightarrow> bool" where
  "quiet [] w = True"
| "quiet ((name, func) # ts) w =
     (case invoke func w of
        (Raises e, w1) \<Rightarrow> False
      | (Returns freed, w1) \<Rightarrow> quiet ts w1)"

fun total_freed :: "'w task list \<Rightarrow> 'w \<Rightarrow> int" where
  "total_freed [] w = 0"
| "total_freed ((name, func) # ts) w =
     (case invoke func w of
        (Raises e, w1) \<Rightarrow> 0
      | (Returns freed, w1) \<Rightarrow> max 0 freed + total_freed ts w1)"



definition big_tasks :: "nat task list" where
  "big_tasks =
     [(''Recycle Bin'', \<lambda>w. (Returns (PyInt 1500000000), Suc w)),
      (''User Temp'', \<lambda>w. (Returns (PyInt 1500000000), Suc w))]"

section \<open>The recycle bin (\<open>empty_recycle_bin\<close>)\<close>

text \<open>
  The module binds the shell library and its two functions when it is imported, outside
  any \<open>try\<close>: \<open>shell32 = ctypes.windll.shell32\<close>, then \<open>SHQueryRecycleBinW\<close> and
  \<open>SHEmptyRecycleBinW\<close>. A platform either has the library, and then a shell service
  with a state, or has not.

  The shell service, as far as the two calls of the adapter see it: the \<open>HRESULT\<close> each
  call answers with, and the bytes the bin holds (the \<open>i64Size\<close> field is a signed 64-bit
  integer, so the model lets it be any integer). Both functions are declared with
  \<open>restype = HRESULT\<close>, for which the foreign-function layer raises \<open>OSError\<close> on a failure
  code (a negative value).
\<close>

record shell =
  query_hres :: int
  empty_hres :: int
  bin_bytes :: int

record platform =
  shell32 :: "shell option"

text \<open>
  The module-level statements of lines 108 to 123: they raise when the library is not
  there, and the module is not loaded.
\<close>

definition import_module :: "platform \<Rightarrow> shell outcome" where
  "import_module p = (case shell32 p of None \<Rightarrow> Raises Exc | Some s \<Rightarrow> Returns s)"

text \<open>
  \<open>SHQueryRecycleBinW(None, byref(info))\<close>: the \<open>HRESULT\<close> and the \<open>i64Size\<close> the structure
  holds afterwards (it was zero-initialised).
\<close>

definition SHQueryRecycleBinW :: "shell \<Rightarrow> (int \<times> int) outcome" where
  "SHQueryRecycleBinW s =
     (if query_hres s < 0 then Raises Exc
      else Returns (query_hres s, if query_hres s = 0 then bin_bytes s else 0))"

text \<open>\<open>SHEmptyRecycleBinW(None, None, flags)\<close>\<close>

definition SHEmptyRecycleBinW :: "shell \<Rightarrow> int outcome \<times> shell" where
  "SHEmptyRecycleBinW s =
     (if empty_hres s < 0 then (Raises Exc, s)
      else (Returns (empty_hres s), s\<lparr>bin_bytes := 0\<rparr>))"

text \<open>
  The first \<open>try\<close> block: \<open>before\<close> stays 0 unless the query returns \<open>S_OK\<close>. Both handlers
  are \<open>except Exception: pass\<close>.
\<close>

definition query_before :: "shell \<Rightarrow> int" where
  "query_before s =
     (case SHQueryRecycleBinW s of
        Raises e \<Rightarrow> 0
      | Returns (res, sz) \<Rightarrow> (if res = 0 then sz else 0))"

definition empty_recycle_bin :: "shell \<Rightarrow> int outcome \<times> shell" where
  "empty_recycle_bin s =
     (let before = query_before s;
          s' = (case SHEmptyRecycleBinW s of (Raises e, s1) \<Rightarrow> s1 | (Returns r, s1) \<Rightarrow> s1)
      in (Returns (max 0 before), s'))"

text \<open>
  The program on a platform, as far as the recycle bin goes: the module is imported, then
  the task is called.
\<close>

definition import_and_empty :: "platform \<Rightarrow> int outcome" where
  "import_and_empty p =
     (case import_module p of
        Raises e \<Rightarrow> Raises e
      | Returns s \<Rightarrow> fst (empty_recycle_bin s))"

definition example_shell :: shell where
  "example_shell = \<lparr>query_hres = 0, empty_hres = 0, bin_bytes = 4096\<rparr>"

section \<open>The window (\<open>QuickCleaner.start_clean\<close>)\<close>

text \<open>
  Of the window, the state \<open>start_clean\<close> and the slots read and write. Worker threads are
  objects the window keeps a reference to, so the model has a store of every
  \<open>CleanerThread\<close> created so far and \<open>cleaner\<close> is an index into it (\<open>None\<close> before the
  first run). The labels are kept as data: the status, and the byte count the total label
  shows.
\<close>

record thread =
  th_tasks :: "string list"
  running :: bool

datatype status = Ready | Starting | Cleaning string | Finished

record checkbox =
  cb_name :: string
  checked :: bool
  enabled :: bool

record gui =
  cleaner :: "nat option"
  workers :: "thread list"
  progress_max :: nat
  progress_value :: nat
  status_label :: status
  total_label :: int
  clean_btn :: bool
  close_btn :: bool
  browser_checks :: "checkbox list"

definition BASE_TASKS :: "string list" where
  "BASE_TASKS = [''Recycle Bin'', ''User Temp'', ''Recent Items'', ''Windows Thumbnails'']"

definition BROWSER_TASKS :: "string \<Rightarrow> string" where
  "BROWSER_TASKS name = name @ '' Cache''"

definition browser_names :: "string list" where
  "browser_names =
     [''Google Chrome'', ''Microsoft Edge'', ''Brave'', ''Vivaldi'', ''Opera'', ''Firefox'']"

definition build_task_list :: "gui \<Rightarrow> string list" where
  "build_task_list g =
     BASE_TASKS @ map (BROWSER_TASKS \<circ> cb_name) (filter checked (browser_checks g))"

definition set_busy :: "bool \<Rightarrow> gui \<Rightarrow> gui" where
  "set_busy busy g =
     g\<lparr>clean_btn := \<not> busy, close_btn := \<not> busy,
       browser_checks := map (\<lambda>cb. cb\<lparr>enabled := (\<not> busy \<and> enabled cb)\<rparr>) (browser_checks g)\<rparr>"

text \<open>\<open>self.cleaner and self.cleaner.isRunning()\<close>\<close>

definition cleaner_running :: "gui \<Rightarrow> bool" where
  "cleaner_running g =
     (case cleaner g of
        None \<Rightarrow> False
      | Some i \<Rightarrow> i < length (workers g) \<and> running (workers g ! i))"

definition start_clean :: "gui \<Rightarrow> gui" where
  "start_clean g =
     (if cleaner_running g then g
      else
        (let tasks = build_task_list g;
             g1 = g\<lparr>progress_max := length tasks, progress_value := 0, total_label := 0,
                    status_label := Starting\<rparr>;
             g2 = set_busy True g1
         in g2\<lparr>workers := workers g2 @ [\<lparr>th_tasks = tasks, running = True\<rparr>],
               cleaner := Some (length (workers g2))\<rparr>))"

text \<open>
  \<open>update_progress_max\<close>, and \<open>refresh_browser_presence\<close>, which enables every checkbox
  and then calls it (the tooltips are left out).
\<close>

definition update_progress_max :: "gui \<Rightarrow> gui" where
  "update_progress_max g =
     g\<lparr>progress_max := length BASE_TASKS + length (filter checked (browser_checks g))\<rparr>"

definition refresh_browser_presence :: "gui \<Rightarrow> gui" where
  "refresh_browser_presence g =
     update_progress_max (g\<lparr>browser_checks := map (\<lambda>cb. cb\<lparr>enabled := True\<rparr>) (browser_checks g)\<rparr>)"

definition on_stage :: "string \<Rightarrow> nat \<Rightarrow> nat \<Rightarrow> gui \<Rightarrow> gui" where
  "on_stage name step n g =
     g\<lparr>status_label := Cleaning name, progress_max := n, progress_value := step - 1\<rparr>"

definition on_progress :: "int \<Rightarrow> gui \<Rightarrow> gui" where
  "on_progress total_bytes g = g\<lparr>total_label := total_bytes\<rparr>"

definition on_done :: "int \<Rightarrow> gui \<Rightarrow> gui" where
  "on_done total_bytes g =
     update_progress_max (refresh_browser_presence (set_busy False
       (g\<lparr>progress_value := progress_max g, status_label := Finished,
          total_label := total_bytes\<rparr>)))"

text \<open>The window when the constructor returns.\<close>

definition init_gui :: gui where
  "init_gui =
     \<lparr>cleaner = None, workers = [], progress_max = length BASE_TASKS + length browser_names,
      progress_value = 0, status_label = Ready, total_label = 0, clean_btn = True,
      close_btn = True,
      browser_checks = map (\<lambda>n. \<lparr>cb_name = n, checked = True, enabled = True\<rparr>) browser_names\<rparr>"

text \<open>
  What can happen to the window: a start request (the button or the tray action), the user
  ticking a checkbox that is enabled, a signal of a worker reaching its slot, and the
  \<open>run\<close> method of a worker returning, after which \<open>isRunning()\<close> is false for it.
\<close>

datatype action =
    StartClean
  | Toggle string
  | OnStage string nat nat
  | OnProgress int
  | OnDone int
  | WorkerReturns nat

definition toggle :: "string \<Rightarrow> gui \<Rightarrow> gui" where
  "toggle name g =
     g\<lparr>browser_checks :=
         map (\<lambda>cb. if cb_name cb = name \<and> enabled cb then cb\<lparr>checked := \<not> checked cb\<rparr> else cb)
           (browser_checks g)\<rparr>"

definition worker_returns :: "nat \<Rightarrow> gui \<Rightarrow> gui" where
  "worker_returns i g =
     (if i < length (workers g)
      then g\<lparr>workers := (workers g)[i := (workers g ! i)\<lparr>running := False\<rparr>]\<rparr>
      else g)"

fun step :: "action \<Rightarrow> gui \<Rightarrow> gui" where
  "step StartClean g = start_clean g"
| "step (Toggle name) g = toggle name g"
| "step (OnStage name i n) g = on_stage name i n g"
| "step (OnProgress b) g = on_progress b g"
| "step (OnDone b) g = on_done b g"
| "step (WorkerReturns i) g = worker_returns i g"

definition exec :: "action list \<Rightarrow> gui \<Rightarrow> gui" where
  "exec acts g = fold step acts g"

definition active_runs :: "gui \<Rightarrow> nat" where
  "active_runs g = length (filter running (workers g))"

section \<open>The file system\<close>

text \<open>
  The deletion primitives talk to the operating system through \<open>pathlib\<close> and \<open>os\<close>. The
  model is a flat table from absolute paths (lists of components; the empty list is the
  root, a directory that is always there) to nodes:
  \<^item> a regular file with its size, its read-only attribute and whether it is locked
    (open in another program, or protected: deleting it fails);
  \<^item> a directory, and whether access to it is denied (listing it, or looking a name up
    in it, fails with a permission error);
  \<^item> a symbolic link with its target (an absolute path) and whether it is a directory
    link. The system this program runs on (it loads \<open>ctypes.windll.shell32\<close> when it is
    imported) has two kinds of link, and removes a directory link with the call that
    removes a directory; a table in which no link is a directory link behaves as POSIX.
\<close>

type_synonym path = "string list"

datatype oserr = ENOENT | ENOTDIR | ELOOP | EACCES | ENOTEMPTY | EIO

datatype node = File nat bool bool | Dir bool | Link bool path

type_synonym fs = "(path \<times> node) list"

text \<open>
  The world of the primitives: the table, and a schedule of transient faults. Every system
  call takes the next entry of the schedule, and fails with \<open>EIO\<close> when the entry is
  \<open>True\<close>; an empty schedule means no further fault.
\<close>

record world =
  files :: fs
  faults :: "bool list"

definition node_at :: "fs \<Rightarrow> path \<Rightarrow> node option" where
  "node_at t p = (if p = [] then Some (Dir False) else map_of t p)"

fun is_Dir :: "node \<Rightarrow> bool" where
  "is_Dir (Dir d) = True"
| "is_Dir _ = False"

fun is_File :: "node \<Rightarrow> bool" where
  "is_File (File s r l) = True"
| "is_File _ = False"

fun is_Link :: "node \<Rightarrow> bool" where
  "is_Link (Link dl t) = True"
| "is_Link _ = False"

fun st_size :: "node \<Rightarrow> nat" where
  "st_size (File s r l) = s"
| "st_size _ = 0"

subsection \<open>Path resolution\<close>

text \<open>
  Walking down the components of a path from a directory \<open>cur\<close> that has been reached:
  the walk arrives, or meets a symbolic link and has to start again from the root with
  the link's target in front of the remaining components, or fails.
\<close>

datatype hop = Arrived path | Jump path | Stuck oserr

fun descend :: "fs \<Rightarrow> path \<Rightarrow> path \<Rightarrow> hop" where
  "descend t cur [] = Arrived cur"
| "descend t cur (c # rest) =
     (case node_at t cur of
        None \<Rightarrow> Stuck ENOENT
      | Some (File s r l) \<Rightarrow> Stuck ENOTDIR
      | Some (Link dl tgt) \<Rightarrow> Stuck ENOTDIR
      | Some (Dir denied) \<Rightarrow>
          (if denied then Stuck EACCES
           else
             (case node_at t (cur @ [c]) of
                None \<Rightarrow> Stuck ENOENT
              | Some (Link dl tgt) \<Rightarrow> Jump (tgt @ rest)
              | Some (File s r l) \<Rightarrow> descend t (cur @ [c]) rest
              | Some (Dir d) \<Rightarrow> descend t (cur @ [c]) rest)))"

text \<open>Following links, at most \<open>m\<close> more of them; too many is \<open>ELOOP\<close>.\<close>

fun resolve :: "nat \<Rightarrow> fs \<Rightarrow> path \<Rightarrow> oserr + path" where
  "resolve 0 t p =
     (case descend t [] p of Arrived q \<Rightarrow> Inr q | Jump p' \<Rightarrow> Inl ELOOP | Stuck e \<Rightarrow> Inl e)"
| "resolve (Suc m) t p =
     (case descend t [] p of Arrived q \<Rightarrow> Inr q | Jump p' \<Rightarrow> resolve m t p' | Stuck e \<Rightarrow> Inl e)"

definition max_links :: nat where
  "max_links = 40"

text \<open>Where the entry a path names lives, without following a link in the last component.\<close>

definition lresolve :: "fs \<Rightarrow> path \<Rightarrow> oserr + path" where
  "lresolve t p =
     (if p = [] then Inr []
      else
        (case resolve max_links t (butlast p) of
           Inl e \<Rightarrow> Inl e
         | Inr q \<Rightarrow>
             (case node_at t q of
                None \<Rightarrow> Inl ENOENT
              | Some (File s r l) \<Rightarrow> Inl ENOTDIR
              | Some (Link dl tgt) \<Rightarrow> Inl ENOTDIR
              | Some (Dir denied) \<Rightarrow>
                  (if denied then Inl EACCES
                   else
                     (case node_at t (q @ [last p]) of
                        None \<Rightarrow> Inl ENOENT
                      | Some n \<Rightarrow> Inr (q @ [last p]))))))"

subsection \<open>System calls on the table\<close>

definition fs_stat :: "fs \<Rightarrow> path \<Rightarrow> oserr + node" where
  "fs_stat t p =
     (case resolve max_links t p of
        Inl e \<Rightarrow> Inl e
      | Inr q \<Rightarrow> (case node_at t q of None \<Rightarrow> Inl ENOENT | Some n \<Rightarrow> Inr n))"

definition fs_lstat :: "fs \<Rightarrow> path \<Rightarrow> oserr + node" where
  "fs_lstat t p =
     (case lresolve t p of
        Inl e \<Rightarrow> Inl e
      | Inr q \<Rightarrow> (case node_at t q of None \<Rightarrow> Inl ENOENT | Some n \<Rightarrow> Inr n))"

text \<open>The entries of the directory at a resolved path: name and node, in table order.\<close>

definition children :: "fs \<Rightarrow> path \<Rightarrow> (string \<times> node) list" where
  "children t q = map (\<lambda>e. (last (fst e), snd e)) (filter (\<lambda>e. fst e \<noteq> [] \<and> butlast (fst e) = q) t)"

definition fs_scandir :: "fs \<Rightarrow> path \<Rightarrow> oserr + (string \<times> node) list" where
  "fs_scandir t p =
     (case resolve max_links t p of
        Inl e \<Rightarrow> Inl e
      | Inr q \<Rightarrow>
          (case node_at t q of
             None \<Rightarrow> Inl ENOENT
           | Some (File s r l) \<Rightarrow> Inl ENOTDIR
           | Some (Link dl tgt) \<Rightarrow> Inl ENOTDIR
           | Some (Dir denied) \<Rightarrow> (if denied then Inl EACCES else Inr (children t q))))"

definition remove_node :: "fs \<Rightarrow> path \<Rightarrow> fs" where
  "remove_node t q = filter (\<lambda>e. fst e \<noteq> q) t"

definition set_node :: "fs \<Rightarrow> path \<Rightarrow> node \<Rightarrow> fs" where
  "set_node t q n = map (\<lambda>e. if fst e = q then (q, n) else e) t"

text \<open>
  \<open>os.unlink\<close>: removes a file or a link; a read-only or locked file, and a directory, are
  refused with a permission error.
\<close>

definition fs_unlink :: "fs \<Rightarrow> path \<Rightarrow> oserr + fs" where
  "fs_unlink t p =
     (case lresolve t p of
        Inl e \<Rightarrow> Inl e
      | Inr q \<Rightarrow>
          (case node_at t q of
             None \<Rightarrow> Inl ENOENT
           | Some (File s r l) \<Rightarrow> (if r \<or> l then Inl EACCES else Inr (remove_node t q))
           | Some (Link dl tgt) \<Rightarrow> Inr (remove_node t q)
           | Some (Dir d) \<Rightarrow> Inl EACCES))"

text \<open>
  \<open>os.rmdir\<close>: removes an empty directory, and a directory link (the link, not what it
  points to).
\<close>

definition fs_rmdir :: "fs \<Rightarrow> path \<Rightarrow> oserr + fs" where
  "fs_rmdir t p =
     (case lresolve t p of
        Inl e \<Rightarrow> Inl e
      | Inr q \<Rightarrow>
          (case node_at t q of
             None \<Rightarrow> Inl ENOENT
           | Some (File s r l) \<Rightarrow> Inl ENOTDIR
           | Some (Link dl tgt) \<Rightarrow> (if dl then Inr (remove_node t q) else Inl ENOTDIR)
           | Some (Dir d) \<Rightarrow>
               (if q = [] then Inl EACCES
                else if children t q \<noteq> [] then Inl ENOTEMPTY
                else Inr (remove_node t q))))"

text \<open>
  \<open>os.chmod(p, S_IWRITE | S_IREAD)\<close>, which follows links: on a file it clears the
  read-only attribute.
\<close>

definition fs_chmod :: "fs \<Rightarrow> path \<Rightarrow> oserr + fs" where
  "fs_chmod t p =
     (case resolve max_links t p of
        Inl e \<Rightarrow> Inl e
      | Inr q \<Rightarrow>
          (case node_at t q of
             None \<Rightarrow> Inl ENOENT
           | Some (File s r l) \<Rightarrow> Inr (set_node t q (File s False l))
           | Some (Link dl tgt) \<Rightarrow> Inr t
           | Some (Dir d) \<Rightarrow> Inr t))"

subsection \<open>System calls in the world\<close>

definition tick :: "world \<Rightarrow> bool \<times> world" where
  "tick w = (case faults w of [] \<Rightarrow> (False, w) | b # bs \<Rightarrow> (b, w\<lparr>faults := bs\<rparr>))"

definition sys_read :: "(fs \<Rightarrow> oserr + 'a) \<Rightarrow> world \<Rightarrow> (oserr + 'a) \<times> world" where
  "sys_read f w =
     (case tick w of (fault, w') \<Rightarrow> (if fault then (Inl EIO, w') else (f (files w'), w')))"

definition sys_write :: "(fs \<Rightarrow> oserr + fs) \<Rightarrow> world \<Rightarrow> (oserr + unit) \<times> world" where
  "sys_write f w =
     (case tick w of
        (fault, w') \<Rightarrow>
          (if fault then (Inl EIO, w')
           else (case f (files w') of
                   Inl e \<Rightarrow> (Inl e, w')
                 | Inr t \<Rightarrow> (Inr (), w'\<lparr>files := t\<rparr>))))"

definition os_stat :: "path \<Rightarrow> world \<Rightarrow> (oserr + node) \<times> world" where
  "os_stat p = sys_read (\<lambda>t. fs_stat t p)"

definition os_lstat :: "path \<Rightarrow> world \<Rightarrow> (oserr + node) \<times> world" where
  "os_lstat p = sys_read (\<lambda>t. fs_lstat t p)"

definition os_scandir :: "path \<Rightarrow> world \<Rightarrow> (oserr + (string \<times> node) list) \<times> world" where
  "os_scandir p = sys_read (\<lambda>t. fs_scandir t p)"

definition os_unlink :: "path \<Rightarrow> world \<Rightarrow> (oserr + unit) \<times> world" where
  "os_unlink p = sys_write (\<lambda>t. fs_unlink t p)"

definition os_rmdir :: "path \<Rightarrow> world \<Rightarrow> (oserr + unit) \<times> world" where
  "os_rmdir p = sys_write (\<lambda>t. fs_rmdir t p)"

definition os_chmod :: "path \<Rightarrow> world \<Rightarrow> (oserr + unit) \<times> world" where
  "os_chmod p = sys_write (\<lambda>t. fs_chmod t p)"

subsection \<open>\<open>pathlib\<close> and \<open>os.DirEntry\<close>\<close>

text \<open>
  A Python call either returns (\<open>Inr\<close>) or raises (\<open>Inl\<close>); every exception of this part
  is an \<open>OSError\<close>. The tests of \<open>pathlib\<close> answer \<open>False\<close> for a missing path, a path
  through a non-directory and a link loop, and let every other error through.
\<close>

definition ignore_error :: "oserr \<Rightarrow> bool" where
  "ignore_error e = (e = ENOENT \<or> e = ENOTDIR \<or> e = ELOOP)"

definition path_test :: "(node \<Rightarrow> bool) \<Rightarrow> (oserr + node) \<times> world \<Rightarrow> (oserr + bool) \<times> world" where
  "path_test P r =
     (case r of
        (Inl e, w) \<Rightarrow> (if ignore_error e then (Inr False, w) else (Inl e, w))
      | (Inr n, w) \<Rightarrow> (Inr (P n), w))"

definition path_exists :: "path \<Rightarrow> world \<Rightarrow> (oserr + bool) \<times> world" where
  "path_exists p w = path_test (\<lambda>n. True) (os_stat p w)"

definition path_is_dir :: "path \<Rightarrow> world \<Rightarrow> (oserr + bool) \<times> world" where
  "path_is_dir p w = path_test is_Dir (os_stat p w)"

definition path_is_file :: "path \<Rightarrow> world \<Rightarrow> (oserr + bool) \<times> world" where
  "path_is_file p w = path_test is_File (os_stat p w)"

definition path_is_symlink :: "path \<Rightarrow> world \<Rightarrow> (oserr + bool) \<times> world" where
  "path_is_symlink p w = path_test is_Link (os_lstat p w)"

text \<open>\<open>p.unlink(missing_ok=True)\<close>\<close>

definition path_unlink :: "path \<Rightarrow> world \<Rightarrow> (oserr + unit) \<times> world" where
  "path_unlink p w =
     (case os_unlink p w of
        (Inl e, w') \<Rightarrow> (if e = ENOENT then (Inr (), w') else (Inl e, w'))
      | (Inr u, w') \<Rightarrow> (Inr (), w'))"

text \<open>
  The tests of a directory entry know the entry's own type from the listing; only for a
  link do they ask the system about the target, and then only a missing target is
  answered with \<open>False\<close>.
\<close>

definition entry_test :: "(node \<Rightarrow> bool) \<Rightarrow> path \<Rightarrow> node \<Rightarrow> world \<Rightarrow> (oserr + bool) \<times> world" where
  "entry_test P p n w =
     (if is_Link n then
        (case os_stat p w of
           (Inl e, w') \<Rightarrow> (if e = ENOENT then (Inr False, w') else (Inl e, w'))
         | (Inr n', w') \<Rightarrow> (Inr (P n'), w'))
      else (Inr (P n), w))"

definition entry_is_dir :: "path \<Rightarrow> node \<Rightarrow> world \<Rightarrow> (oserr + bool) \<times> world" where
  "entry_is_dir = entry_test is_Dir"

definition entry_is_file :: "path \<Rightarrow> node \<Rightarrow> world \<Rightarrow> (oserr + bool) \<times> world" where
  "entry_is_file = entry_test is_File"

section \<open>The deletion primitives\<close>

subsection \<open>\<open>safe_remove_file\<close>\<close>

text \<open>
  The body of the outer \<open>try\<close>. The two inner \<open>try\<close> blocks keep the size at 0 when the
  size read raises, and drop whatever \<open>os.chmod\<close> raises.
\<close>

definition safe_remove_file_try :: "path \<Rightarrow> world \<Rightarrow> (oserr + nat) \<times> world" where
  "safe_remove_file_try p w =
     (case path_exists p w of
        (Inl e, w1) \<Rightarrow> (Inl e, w1)
      | (Inr ex, w1) \<Rightarrow>
          (if \<not> ex then (Inr 0, w1)
           else
             (case path_is_symlink p w1 of
                (Inl e, w2) \<Rightarrow> (Inl e, w2)
              | (Inr sl, w2) \<Rightarrow>
                  (if sl then (Inr 0, w2)
                   else
                     (case os_stat p w2 of
                        (r, w3) \<Rightarrow>
                          (case os_chmod p w3 of
                             (c, w4) \<Rightarrow>
                               (case path_unlink p w4 of
                                  (Inl e, w5) \<Rightarrow> (Inl e, w5)
                                | (Inr u, w5) \<Rightarrow>
                                    (Inr (case r of Inl e \<Rightarrow> 0 | Inr n \<Rightarrow> st_size n), w5))))))))"

text \<open>The outer handler: \<open>except Exception: return 0\<close>.\<close>

definition safe_remove_file :: "path \<Rightarrow> world \<Rightarrow> (oserr + nat) \<times> world" where
  "safe_remove_file p w =
     (case safe_remove_file_try p w of
        (Inl e, w') \<Rightarrow> (Inr 0, w')
      | (Inr n, w') \<Rightarrow> (Inr n, w'))"

subsection \<open>\<open>os.walk(top, topdown=False)\<close>\<close>

text \<open>
  The scan of one directory in \<open>os.walk\<close>: an entry is a directory when its test says so
  (a test that raises counts as \<open>False\<close>); the walk goes into the directories that are
  not links. The result is \<open>dirs\<close>, \<open>nondirs\<close> and the paths to walk into.
\<close>

fun classify :: "path \<Rightarrow> (string \<times> node) list \<Rightarrow> world \<Rightarrow> (string list \<times> string list \<times> path list) \<times> world" where
  "classify tp [] w = (([], [], []), w)"
| "classify tp ((name, n) # es) w =
     (case entry_is_dir (tp @ [name]) n w of
        (r, w1) \<Rightarrow>
          (case classify tp es w1 of
             ((dirs, nondirs, walk_dirs), w2) \<Rightarrow>
               (if (case r of Inl e \<Rightarrow> False | Inr b \<Rightarrow> b)
                then ((name # dirs, nondirs,
                       if is_Link n then walk_dirs else (tp @ [name]) # walk_dirs), w2)
                else ((dirs, name # nondirs, walk_dirs), w2))))"

text \<open>
  The generator runs the body of the caller's \<open>for\<close> loop at each \<open>yield\<close>, so the walk is
  modelled together with that body: \<open>body tp dirs nondirs freed w\<close> gives the exception
  the body raised, if any, the caller's counter and the world. A directory that cannot be
  listed yields nothing. The listing of a directory is taken before its subdirectories are
  walked; its triple is yielded after them.

  The first argument bounds the depth of the walk; \<open>None\<close> means the bound was reached.
\<close>

type_synonym loop_body = "path \<Rightarrow> string list \<Rightarrow> string list \<Rightarrow> nat \<Rightarrow> world \<Rightarrow> oserr option \<times> nat \<times> world"

fun os_walk :: "nat \<Rightarrow> loop_body \<Rightarrow> path \<Rightarrow> nat \<Rightarrow> world \<Rightarrow> (oserr option \<times> nat \<times> world) option"
  and os_walk_list :: "nat \<Rightarrow> loop_body \<Rightarrow> path list \<Rightarrow> nat \<Rightarrow> world \<Rightarrow> (oserr option \<times> nat \<times> world) option"
where
  "os_walk 0 body tp freed w = None"
| "os_walk (Suc k) body tp freed w =
     (case os_scandir tp w of
        (Inl e, w1) \<Rightarrow> Some (None, freed, w1)
      | (Inr entries, w1) \<Rightarrow>
          (case classify tp entries w1 of
             ((dirs, nondirs, walk_dirs), w2) \<Rightarrow>
               (case os_walk_list k body walk_dirs freed w2 of
                  None \<Rightarrow> None
                | Some (Some e, freed3, w3) \<Rightarrow> Some (Some e, freed3, w3)
                | Some (None, freed3, w3) \<Rightarrow> Some (body tp dirs nondirs freed3 w3))))"
| "os_walk_list k body [] freed w = Some (None, freed, w)"
| "os_walk_list k body (p # ps) freed w =
     (case os_walk k body p freed w of
        None \<Rightarrow> None
      | Some (Some e, freed1, w1) \<Rightarrow> Some (Some e, freed1, w1)
      | Some (None, freed1, w1) \<Rightarrow> os_walk_list k body ps freed1 w1)"

subsection \<open>\<open>wipe_tree\<close>\<close>

text \<open>\<open>for name in files: freed += safe_remove_file(root_p / name)\<close>\<close>

fun remove_files :: "path \<Rightarrow> string list \<Rightarrow> nat \<Rightarrow> world \<Rightarrow> oserr option \<times> nat \<times> world" where
  "remove_files root [] freed w = (None, freed, w)"
| "remove_files root (name # names) freed w =
     (case safe_remove_file (root @ [name]) w of
        (Inl e, w1) \<Rightarrow> (Some e, freed, w1)
      | (Inr n, w1) \<Rightarrow> remove_files root names (freed + n) w1)"

text \<open>\<open>for name in dirs: try: (root_p / name).rmdir() except Exception: pass\<close>\<close>

fun remove_dirs :: "path \<Rightarrow> string list \<Rightarrow> world \<Rightarrow> world" where
  "remove_dirs root [] w = w"
| "remove_dirs root (name # names) w = remove_dirs root names (snd (os_rmdir (root @ [name]) w))"

definition wipe_tree_body :: loop_body where
  "wipe_tree_body root dirs fls freed w =
     (case remove_files root fls freed w of
        (Some e, freed1, w1) \<Rightarrow> (Some e, freed1, w1)
      | (None, freed1, w1) \<Rightarrow> (None, freed1, remove_dirs root dirs w1))"

text \<open>
  Everything is inside the outer \<open>try\<close>, whose handler is \<open>pass\<close>; \<open>return freed\<close> follows
  it, so an exception leaves the bytes counted so far. The first argument is the depth
  bound of the walk.
\<close>

definition wipe_tree :: "nat \<Rightarrow> path \<Rightarrow> world \<Rightarrow> ((oserr + nat) \<times> world) option" where
  "wipe_tree k p w =
     (case path_exists p w of
        (Inl e, w1) \<Rightarrow> Some (Inr 0, w1)
      | (Inr ex, w1) \<Rightarrow>
          (if \<not> ex then Some (Inr 0, w1)
           else
             (case path_is_symlink p w1 of
                (Inl e, w2) \<Rightarrow> Some (Inr 0, w2)
              | (Inr sl, w2) \<Rightarrow>
                  (if sl then Some (Inr 0, w2)
                   else
                     (case os_walk k wipe_tree_body p 0 w2 of
                        None \<Rightarrow> None
                      | Some (Some e, freed, w3) \<Rightarrow> Some (Inr freed, w3)
                      | Some (None, freed, w3) \<Rightarrow> Some (Inr freed, snd (os_rmdir p w3)))))))"

subsection \<open>\<open>wipe_dir_contents\<close>\<close>

text \<open>The \<open>elif p.is_file()\<close> branch of the loop body.\<close>

definition wipe_entry_file :: "path \<Rightarrow> world \<Rightarrow> (oserr + nat) \<times> world" where
  "wipe_entry_file p w =
     (case path_is_file p w of
        (Inl e, w1) \<Rightarrow> (Inl e, w1)
      | (Inr f, w1) \<Rightarrow> (if f then safe_remove_file p w1 else (Inr 0, w1)))"

text \<open>
  The loop body for one entry: the bytes to add to \<open>freed\<close>, or the exception raised.
  \<open>p.is_symlink()\<close> is only evaluated when \<open>p.is_dir()\<close> is true.
\<close>

definition wipe_entry :: "nat \<Rightarrow> path \<Rightarrow> world \<Rightarrow> ((oserr + nat) \<times> world) option" where
  "wipe_entry k p w =
     (case path_is_dir p w of
        (Inl e, w1) \<Rightarrow> Some (Inl e, w1)
      | (Inr d, w1) \<Rightarrow>
          (if d then
             (case path_is_symlink p w1 of
                (Inl e, w2) \<Rightarrow> Some (Inl e, w2)
              | (Inr sl, w2) \<Rightarrow>
                  (if \<not> sl then wipe_tree k p w2 else Some (wipe_entry_file p w2)))
           else Some (wipe_entry_file p w1)))"

fun wipe_entries :: "nat \<Rightarrow> path \<Rightarrow> string list \<Rightarrow> nat \<Rightarrow> world \<Rightarrow> (oserr option \<times> nat \<times> world) option" where
  "wipe_entries k dir [] freed w = Some (None, freed, w)"
| "wipe_entries k dir (name # names) freed w =
     (case wipe_entry k (dir @ [name]) w of
        None \<Rightarrow> None
      | Some (Inl e, w1) \<Rightarrow> Some (Some e, freed, w1)
      | Some (Inr n, w1) \<Rightarrow> wipe_entries k dir names (freed + n) w1)"

text \<open>
  The guard \<open>if not path.exists() or not path.is_dir(): return 0\<close> stands before the
  \<open>try\<close>: what it raises reaches the caller. The entries are those of the listing taken
  when the directory is opened.
\<close>

definition wipe_dir_contents :: "nat \<Rightarrow> path \<Rightarrow> world \<Rightarrow> ((oserr + nat) \<times> world) option" where
  "wipe_dir_contents k p w =
     (case path_exists p w of
        (Inl e, w1) \<Rightarrow> Some (Inl e, w1)
      | (Inr ex, w1) \<Rightarrow>
          (if \<not> ex then Some (Inr 0, w1)
           else
             (case path_is_dir p w1 of
                (Inl e, w2) \<Rightarrow> Some (Inl e, w2)
              | (Inr d, w2) \<Rightarrow>
                  (if \<not> d then Some (Inr 0, w2)
                   else
                     (case os_scandir p w2 of
                        (Inl e, w3) \<Rightarrow> Some (Inr 0, w3)
                      | (Inr entries, w3) \<Rightarrow>
                          (case wipe_entries k p (map fst entries) 0 w3 of
                             None \<Rightarrow> None
                           | Some (r, freed, w4) \<Rightarrow> Some (Inr freed, w4)))))))"

subsection \<open>\<open>delete_globs\<close>\<close>

text \<open>
  \<open>fnmatch.fnmatch\<close> is a parameter \<open>fnm name pat\<close> of the model. For running the model
  there is a matcher for patterns made of literal characters, \<open>*\<close> and \<open>?\<close> (no bracket
  classes, no case folding).
\<close>

fun glob :: "string \<Rightarrow> string \<Rightarrow> bool" where
  "glob [] [] = True"
| "glob [] (c # cs) = False"
| "glob (p # ps) [] = (p = CHR ''*'' \<and> glob ps [])"
| "glob (p # ps) (c # cs) =
     (if p = CHR ''*'' then glob ps (c # cs) \<or> glob (p # ps) cs
      else (p = CHR ''?'' \<or> p = c) \<and> glob ps cs)"

definition fnmatch :: "string \<Rightarrow> string \<Rightarrow> bool" where
  "fnmatch name pat = glob pat name"

fun glob_entries :: "(string \<Rightarrow> string \<Rightarrow> bool) \<Rightarrow> path \<Rightarrow> string list \<Rightarrow> (string \<times> node) list \<Rightarrow> nat \<Rightarrow> world
    \<Rightarrow> oserr option \<times> nat \<times> world" where
  "glob_entries fnm folder patterns [] freed w = (None, freed, w)"
| "glob_entries fnm folder patterns ((name, n) # es) freed w =
     (case entry_is_file (folder @ [name]) n w of
        (Inl e, w1) \<Rightarrow> (Some e, freed, w1)
      | (Inr f, w1) \<Rightarrow>
          (if f \<and> list_ex (fnm name) patterns then
             (case safe_remove_file (folder @ [name]) w1 of
                (Inl e, w2) \<Rightarrow> (Some e, freed, w2)
              | (Inr n, w2) \<Rightarrow> glob_entries fnm folder patterns es (freed + n) w2)
           else glob_entries fnm folder patterns es freed w1))"

definition delete_globs :: "(string \<Rightarrow> string \<Rightarrow> bool) \<Rightarrow> path \<Rightarrow> string list \<Rightarrow> world \<Rightarrow> (oserr + nat) \<times> world" where
  "delete_globs fnm folder patterns w =
     (case path_exists folder w of
        (Inl e, w1) \<Rightarrow> (Inl e, w1)
      | (Inr ex, w1) \<Rightarrow>
          (if \<not> ex then (Inr 0, w1)
           else
             (case path_is_dir folder w1 of
                (Inl e, w2) \<Rightarrow> (Inl e, w2)
              | (Inr d, w2) \<Rightarrow>
                  (if \<not> d then (Inr 0, w2)
                   else
                     (case os_scandir folder w2 of
                        (Inl e, w3) \<Rightarrow> (Inr 0, w3)
                      | (Inr entries, w3) \<Rightarrow>
                          (case glob_entries fnm folder patterns entries 0 w3 of
                             (r, freed, w4) \<Rightarrow> (Inr freed, w4)))))))"

section \<open>The cache locator (\<open>clean_chromium_user_data\<close>)\<close>

text \<open>
  The \<open>try\<close> block that collects the candidates: the entries of the root that are
  directories (the test follows links); an exception ends the collection and keeps what
  was collected.
\<close>

fun collect_dirs :: "path \<Rightarrow> (string \<times> node) list \<Rightarrow> world \<Rightarrow> path list \<times> world" where
  "collect_dirs root [] w = ([], w)"
| "collect_dirs root ((name, n) # es) w =
     (case entry_is_dir (root @ [name]) n w of
        (Inl e, w1) \<Rightarrow> ([], w1)
      | (Inr d, w1) \<Rightarrow>
          (case collect_dirs root es w1 of
             (ps, w2) \<Rightarrow> (if d then (root @ [name]) # ps else ps, w2)))"

definition candidates :: "path \<Rightarrow> world \<Rightarrow> path list \<times> world" where
  "candidates root w =
     (case os_scandir root w of
        (Inl e, w1) \<Rightarrow> ([root], w1)
      | (Inr entries, w1) \<Rightarrow>
          (case collect_dirs root entries w1 of (ps, w2) \<Rightarrow> (root # ps, w2)))"

definition rels :: "path list" where
  "rels =
     [[''Cache''], [''Code Cache''], [''GPUCache''], [''ShaderCache''], [''DawnCache''],
      [''Media Cache''], [''Service Worker'', ''CacheStorage'']]"

text \<open>
  The two nested \<open>for\<close> loops, over the targets \<open>base / rel\<close> in order. They are not inside
  a \<open>try\<close>: an exception of \<open>wipe_dir_contents\<close> reaches the caller.
\<close>

fun wipe_targets :: "nat \<Rightarrow> path list \<Rightarrow> nat \<Rightarrow> world \<Rightarrow> ((oserr + nat) \<times> world) option" where
  "wipe_targets k [] freed w = Some (Inr freed, w)"
| "wipe_targets k (p # ps) freed w =
     (case wipe_dir_contents k p w of
        None \<Rightarrow> None
      | Some (Inl e, w1) \<Rightarrow> Some (Inl e, w1)
      | Some (Inr n, w1) \<Rightarrow> wipe_targets k ps (freed + n) w1)"

definition clean_chromium_user_data :: "nat \<Rightarrow> path \<Rightarrow> world \<Rightarrow> ((oserr + nat) \<times> world) option" where
  "clean_chromium_user_data k root w =
     (case path_exists root w of
        (Inl e, w1) \<Rightarrow> Some (Inl e, w1)
      | (Inr ex, w1) \<Rightarrow>
          (if \<not> ex then Some (Inr 0, w1)
           else
             (case candidates root w1 of
                (cands, w2) \<Rightarrow>
                  wipe_targets k (concat (map (\<lambda>base. map (\<lambda>rel. base @ rel) rels) cands)) 0 w2)))"

text \<open>
  Two tables are similar when they hold the same nodes up to the attributes of files.
\<close>

definition same_kind :: "node option \<Rightarrow> node option \<Rightarrow> bool" where
  "same_kind a b = (a = b \<or> (\<exists>s r l s' r' l'. a = Some (File s r l) \<and> b = Some (File s' r' l')))"

definition similar :: "fs \<Rightarrow> fs \<Rightarrow> bool" where
  "similar t t' = (\<forall>k. same_kind (node_at t k) (node_at t' k))"
text \<open>Every symbolic link of the first table is in the second, unchanged.\<close>

definition links_kept :: "fs \<Rightarrow> fs \<Rightarrow> bool" where
  "links_kept t t' = (\<forall>k dl tgt. node_at t k = Some (Link dl tgt) \<longrightarrow> node_at t' k = Some (Link dl tgt))"
text \<open>
  A folder to run \<open>delete_globs\<close> on: two thumbnail databases (one read-only), a text file,
  a file of the wrong extension, a locked icon cache, a subdirectory, and a link whose
  name matches the pattern and whose target is a file outside the folder.
\<close>

definition explorer_fs :: fs where
  "explorer_fs =
     [([''docs''], Dir False),
      ([''docs'', ''report.db''], File 500 False False),
      ([''Explorer''], Dir False),
      ([''Explorer'', ''thumbcache_32.db''], File 100 False False),
      ([''Explorer'', ''thumbcache_96.db''], File 200 True False),
      ([''Explorer'', ''notes.txt''], File 30 False False),
      ([''Explorer'', ''thumbcacheX.dat''], File 40 False False),
      ([''Explorer'', ''iconcache_16.db''], File 64 False True),
      ([''Explorer'', ''thumbcache_link.db''], Link False [''docs'', ''report.db'']),
      ([''Explorer'', ''sub''], Dir False)]"

definition explorer_world :: world where
  "explorer_world = \<lparr>files = explorer_fs, faults = []\<rparr>"
text \<open>
  A tree with links in it: \<open>d\<close> holds a regular file, a directory link and a file link to
  things outside \<open>d\<close>, and a subdirectory that holds another directory link. \<open>secret\<close> is
  a directory to which access is denied.
\<close>

definition links_fs :: fs where
  "links_fs =
     [([''out''], Dir False),
      ([''out'', ''keep''], File 7 False False),
      ([''d''], Dir False),
      ([''d'', ''l''], Link True [''out'']),
      ([''d'', ''fl''], Link False [''out'', ''keep'']),
      ([''d'', ''sub''], Dir False),
      ([''d'', ''sub'', ''l2''], Link True [''out'']),
      ([''d'', ''x''], File 3 False False),
      ([''secret''], Dir True),
      ([''secret'', ''tmp''], Dir False)]"

definition links_world :: world where
  "links_world = \<lparr>files = links_fs, faults = []\<rparr>"

text \<open>
  A browser's data directory with two profiles; each has a \<open>Cache\<close> folder that holds
  1000 bytes.
\<close>

definition profiles_fs :: fs where
  "profiles_fs =
     [([''User Data''], Dir False),
      ([''User Data'', ''Local State''], File 10 False False),
      ([''User Data'', ''Default''], Dir False),
      ([''User Data'', ''Default'', ''Cache''], Dir False),
      ([''User Data'', ''Default'', ''Cache'', ''data_0''], File 600 False False),
      ([''User Data'', ''Default'', ''Cache'', ''data_1''], File 400 False False),
      ([''User Data'', ''Default'', ''History''], File 50 False False),
      ([''User Data'', ''Profile 1''], Dir False),
      ([''User Data'', ''Profile 1'', ''Cache''], Dir False),
      ([''User Data'', ''Profile 1'', ''Cache'', ''Cache_Data''], Dir False),
      ([''User Data'', ''Profile 1'', ''Cache'', ''Cache_Data'', ''f_000001''], File 1000 True False),
      ([''Empty''], Dir False)]"

definition profiles_world :: world where
  "profiles_world = \<lparr>files = profiles_fs, faults = []\<rparr>"

subsection \<open>Plain trees\<close>





text \<open>The table without the entries below \<open>p\<close>, and without \<open>p\<close> and the entries below it.\<close>

definition wiped :: "fs \<Rightarrow> path \<Rightarrow> fs" where
  "wiped t p = filter (\<lambda>e. \<not> strict_prefix p (fst e)) t"


subsection \<open>The shape of a run\<close>





lemma log_Nil: "stages [] = []" "progresses [] = []" "dones [] = []"
  by (simp_all add: stages_def progresses_def dones_def List.map_filter_def)

lemma log_Stage:
  "stages (Stage name a b # evs) = (name, a, b) # stages evs"
  "progresses (Stage name a b # evs) = progresses evs"
  "dones (Stage name a b # evs) = dones evs"
  by (simp_all add: stages_def progresses_def dones_def)

lemma log_Progress:
  "stages (Progress v # evs) = stages evs"
  "progresses (Progress v # evs) = v # progresses evs"
  "dones (Progress v # evs) = dones evs"
  by (simp_all add: stages_def progresses_def dones_def)


lemma to_c_int_in_range: "int32 v \<Longrightarrow> to_c_int pol v = Returns v"
  by (simp add: to_c_int_def)

lemma emit_stage_in_range:
  "int32 (int i) \<Longrightarrow> int32 (int steps) \<Longrightarrow>
   emit_stage pol name i steps = Returns (Stage name (int i) (int steps))"
  by (simp add: emit_stage_def to_c_int_in_range)


lemma world_after_Cons:
  "world_after ((name, func) # ts) w = world_after ts (snd (invoke func w))"
  by (simp add: world_after_def)


lemma total_freed_nonneg: "0 \<le> total_freed ts w"
proof (induction ts arbitrary: w)
  case Nil
  show ?case by simp
next
  case (Cons t ts)
  obtain name func where t: "t = (name, func)" by (cases t)
  obtain r w1 where inv: "invoke func w = (r, w1)" by (cases "invoke func w")
  show ?case
  proof (cases r)
    case (Returns freed)
    have "0 \<le> total_freed ts w1" by (rule Cons.IH)
    then show ?thesis using t inv Returns by simp
  next
    case (Raises e)
    then show ?thesis using t inv by simp
  qed
qed

lemma quiet_Cons:
  assumes "quiet ((name, func) # ts) w"
  obtains freed where "invoke func w = (Returns freed, snd (invoke func w))"
    and "quiet ts (snd (invoke func w))"
    and "total_freed ((name, func) # ts) w = max 0 freed + total_freed ts (snd (invoke func w))"
proof -
  obtain r w1 where inv: "invoke func w = (r, w1)" by (cases "invoke func w")
  show ?thesis
  proof (cases r)
    case (Returns freed)
    show ?thesis
      using assms inv Returns by (intro that [of freed]) simp_all
  next
    case (Raises e)
    then show ?thesis using assms inv by simp
  qed
qed



text \<open>
  A run in which every integer fits its signal and no task raises past the handler.
\<close>

lemma run_loop_in_range:
  assumes "int steps < 2147483648" and "int (i + length ts) \<le> 2147483648"
    and "quiet ts w" and "0 \<le> tot" and "tot + total_freed ts w < 2147483648"
  shows "\<exists>evs. run_loop pol steps i ts tot w =
                 (evs, Returns (tot + total_freed ts w), world_after ts w) \<and>
           map fst (stages evs) = map fst ts \<and>
           map (fst \<circ> snd) (stages evs) = map int [i ..< i + length ts] \<and>
           map (snd \<circ> snd) (stages evs) = replicate (length ts) (int steps) \<and>
           length (progresses evs) = length ts \<and>
           sorted (tot # progresses evs) \<and>
           last (tot # progresses evs) = tot + total_freed ts w \<and>
           dones evs = []"
  using assms
proof (induction ts arbitrary: i tot w)
  case Nil
  show ?case by (simp add: world_after_def log_Nil)
next
  case (Cons t ts)
  obtain name func where t: "t = (name, func)" by (cases t)
  have qq: "quiet ((name, func) # ts) w" using Cons.prems(3) unfolding t .
  from quiet_Cons [OF qq] obtain freed where
    inv: "invoke func w = (Returns freed, snd (invoke func w))"
    and q: "quiet ts (snd (invoke func w))"
    and tf0: "total_freed ((name, func) # ts) w =
                max 0 freed + total_freed ts (snd (invoke func w))"
    by blast
  have tf: "total_freed (t # ts) w = max 0 freed + total_freed ts (snd (invoke func w))"
    unfolding t by (rule tf0)
  define w1 where "w1 = snd (invoke func w)"
  define tot' where "tot' = tot + max 0 freed"
  have inv': "invoke func w = (Returns freed, w1)" using inv by (simp add: w1_def)
  have nn: "0 \<le> total_freed ts w1" by (rule total_freed_nonneg)
  have le: "tot \<le> tot'" by (simp add: tot'_def)
  have pos: "0 \<le> tot'" using Cons.prems(4) le by simp
  have sum: "tot' + total_freed ts w1 = tot + total_freed (t # ts) w"
    using tf by (simp add: tot'_def w1_def)
  have bound: "tot' + total_freed ts w1 < 2147483648"
    using Cons.prems(5) sum by simp
  have c1: "int32 tot'" using pos bound nn by (simp add: int32_def)
  have c2: "int32 (int i)" using Cons.prems(2) by (simp add: int32_def)
  have c3: "int32 (int steps)" using Cons.prems(1) by (simp add: int32_def)
  have idx: "int (Suc i + length ts) \<le> 2147483648" using Cons.prems(2) by simp
  from Cons.IH [OF Cons.prems(1) idx, of w1 tot'] q pos bound
  obtain evs where
    rl: "run_loop pol steps (Suc i) ts tot' w1 =
           (evs, Returns (tot' + total_freed ts w1), world_after ts w1)"
    and s1: "map fst (stages evs) = map fst ts"
    and s2: "map (fst \<circ> snd) (stages evs) = map int [Suc i ..< Suc i + length ts]"
    and s3: "map (snd \<circ> snd) (stages evs) = replicate (length ts) (int steps)"
    and p1: "length (progresses evs) = length ts"
    and p2: "sorted (tot' # progresses evs)"
    and p3: "last (tot' # progresses evs) = tot' + total_freed ts w1"
    and d: "dones evs = []"
    unfolding w1_def by blast
  let ?evs = "Stage name (int i) (int steps) # Progress tot' # evs"
  have whole: "run_loop pol steps i (t # ts) tot w =
                 (?evs, Returns (tot + total_freed (t # ts) w), world_after (t # ts) w)"
    using t inv' rl sum c1 c2 c3
    by (simp add: emit_stage_in_range to_c_int_in_range tot'_def [symmetric] world_after_Cons)
  have up: "[i ..< i + length (t # ts)] = i # [Suc i ..< Suc i + length ts]"
    using upt_conv_Cons [of i "Suc (i + length ts)"] by simp
  have a1: "map fst (stages ?evs) = map fst (t # ts)"
    using s1 t by (simp add: log_Stage log_Progress)
  have a2: "map (fst \<circ> snd) (stages ?evs) = map int [i ..< i + length (t # ts)]"
    unfolding up using s2 by (simp add: log_Stage log_Progress del: upt_Suc)
  have a3: "map (snd \<circ> snd) (stages ?evs) = replicate (length (t # ts)) (int steps)"
    using s3 by (simp add: log_Stage log_Progress)
  have a4: "length (progresses ?evs) = length (t # ts)"
    using p1 by (simp add: log_Stage log_Progress)
  have a5: "sorted (tot # progresses ?evs)"
    using p2 le by (auto simp add: log_Stage log_Progress)
  have a6: "last (tot # progresses ?evs) = tot + total_freed (t # ts) w"
    using p3 sum by (simp add: log_Stage log_Progress)
  have a7: "dones ?evs = []"
    using d by (simp add: log_Stage log_Progress)
  show ?case
    using whole a1 a2 a3 a4 a5 a6 a7 by blast
qed

lemma run_in_range:
  assumes "int (length tasks) < 2147483648" and "quiet tasks w"
    and "total_freed tasks w < 2147483648"
  shows "\<exists>evs. run pol tasks w = (evs @ [Done (total_freed tasks w)], Returns (), world_after tasks w) \<and>
           map fst (stages evs) = map fst tasks \<and>
           map (fst \<circ> snd) (stages evs) = map int [1 ..< Suc (length tasks)] \<and>
           map (snd \<circ> snd) (stages evs) = replicate (length tasks) (int (length tasks)) \<and>
           length (progresses evs) = length tasks \<and>
           sorted (0 # progresses evs) \<and>
           last (0 # progresses evs) = total_freed tasks w \<and>
           dones evs = []"
proof -
  have idx: "int (1 + length tasks) \<le> 2147483648" using assms(1) by simp
  have b: "0 + total_freed tasks w < 2147483648" using assms(3) by simp
  from run_loop_in_range [OF assms(1) idx assms(2) _ b, of pol]
  obtain evs where
    rl: "run_loop pol (length tasks) 1 tasks 0 w =
           (evs, Returns (0 + total_freed tasks w), world_after tasks w)"
    and rest: "map fst (stages evs) = map fst tasks"
      "map (fst \<circ> snd) (stages evs) = map int [1 ..< 1 + length tasks]"
      "map (snd \<circ> snd) (stages evs) = replicate (length tasks) (int (length tasks))"
      "length (progresses evs) = length tasks"
      "sorted (0 # progresses evs)"
      "last (0 # progresses evs) = 0 + total_freed tasks w"
      "dones evs = []"
    by auto
  have c: "int32 (total_freed tasks w)"
    using assms(3) total_freed_nonneg [of tasks w] by (simp add: int32_def)
  have "run pol tasks w = (evs @ [Done (total_freed tasks w)], Returns (), world_after tasks w)"
    using rl c by (simp add: run_def to_c_int_in_range)
  then show ?thesis using rest by auto
qed


section \<open>Claims about the orchestrator\<close>

text \<open>
  C1. A run emits one stage-start and one progress signal for each task and one done
  signal only as long as the running total fits the 32-bit integer of the signals
  (lemma \<open>run_in_range\<close>). In the selection \<open>big_tasks\<close> two tasks free 1.5 GB each. The
  second total, 3000000000, does not fit. When the conversion fails, \<open>progress.emit\<close>
  raises outside the \<open>try\<close> and \<open>run\<close> ends there: one progress signal for two tasks, and
  no done signal. When the conversion wraps, the second progress value and the done value
  are -1294967296: the totals decrease.
\<close>

theorem run_overflows_signal_int:
  "run Fails big_tasks 0 =
     ([Stage ''Recycle Bin'' 1 2, Progress 1500000000, Stage ''User Temp'' 2 2], Raises Exc, 2) \<and>
   run Wraps big_tasks 0 =
     ([Stage ''Recycle Bin'' 1 2, Progress 1500000000, Stage ''User Temp'' 2 2,
       Progress (- 1294967296), Done (- 1294967296)], Returns (), 2) \<and>
   total_freed big_tasks 0 = 3000000000"
  by (simp add: run_def big_tasks_def invoke_def or_zero_def emit_stage_def to_c_int_def
      int32_def wrap32_def)




section \<open>Claims about the recycle bin\<close>

text \<open>
  C8, as the claim states it, fails on a platform without the shell service: the module
  binds the library when it is imported, the import raises, and the task is never there
  to return 0.
\<close>

theorem import_fails_without_shell:
  "import_and_empty \<lparr>shell32 = None\<rparr> = Raises Exc \<and>
   import_and_empty \<lparr>shell32 = None\<rparr> \<noteq> Returns 0"
  by (simp add: import_and_empty_def import_module_def)

text \<open>
  C8, amended. Where the module is loaded, \<open>empty_recycle_bin\<close> never raises and never
  returns a negative value. It returns the size of the single query made before the
  emptying request when that query answers \<open>S_OK\<close> (cut off at 0), and 0 when the query
  fails or answers another code; the emptying request, whatever it does to the bin, does
  not change the value.
\<close>

theorem empty_recycle_bin_result:
  "(\<exists>n. fst (empty_recycle_bin s) = Returns n \<and> 0 \<le> n) \<and>
   fst (empty_recycle_bin s) = Returns (if query_hres s = 0 then max 0 (bin_bytes s) else 0) \<and>
   (query_hres s = 0 \<and> 0 \<le> bin_bytes s \<longrightarrow> fst (empty_recycle_bin s) = Returns (bin_bytes s)) \<and>
   (query_hres s \<noteq> 0 \<longrightarrow> fst (empty_recycle_bin s) = Returns 0) \<and>
   fst (empty_recycle_bin s) = fst (empty_recycle_bin (s\<lparr>empty_hres := h\<rparr>)) \<and>
   (shell32 p = Some s \<longrightarrow> import_and_empty p = fst (empty_recycle_bin s))"
  by (simp add: empty_recycle_bin_def query_before_def SHQueryRecycleBinW_def Let_def
      import_and_empty_def import_module_def)

text \<open>
  A bin of 4096 bytes on a working service: 4096 is returned although the bin is empty
  afterwards; when the query fails, 0 is returned.
\<close>

theorem empty_recycle_bin_result_witness:
  "query_hres example_shell = 0 \<and> 0 \<le> bin_bytes example_shell \<and>
   fst (empty_recycle_bin example_shell) = Returns 4096 \<and>
   bin_bytes (snd (empty_recycle_bin example_shell)) = 0 \<and>
   query_hres (example_shell\<lparr>query_hres := - 2147467259\<rparr>) \<noteq> 0 \<and>
   fst (empty_recycle_bin (example_shell\<lparr>query_hres := - 2147467259\<rparr>)) = Returns 0 \<and>
   shell32 \<lparr>shell32 = Some example_shell\<rparr> = Some example_shell \<and>
   import_and_empty \<lparr>shell32 = Some example_shell\<rparr> = Returns 4096"
proof -
  have a: "query_hres example_shell = 0 \<and> 0 \<le> bin_bytes example_shell"
    by (simp add: example_shell_def)
  have b: "bin_bytes example_shell = 4096" by (simp add: example_shell_def)
  have c: "bin_bytes (snd (empty_recycle_bin example_shell)) = 0"
    by (simp add: example_shell_def empty_recycle_bin_def SHEmptyRecycleBinW_def Let_def)
  have d: "query_hres (example_shell\<lparr>query_hres := - 2147467259\<rparr>) \<noteq> 0" by simp
  have g: "shell32 \<lparr>shell32 = Some example_shell\<rparr> = Some example_shell" by simp
  note i1 = empty_recycle_bin_result
    [where s = example_shell and p = "\<lparr>shell32 = Some example_shell\<rparr>"]
  note i2 = empty_recycle_bin_result [where s = "example_shell\<lparr>query_hres := - 2147467259\<rparr>"]
  have e: "fst (empty_recycle_bin example_shell) = Returns 4096"
    using i1 a b by simp
  have f: "fst (empty_recycle_bin (example_shell\<lparr>query_hres := - 2147467259\<rparr>)) = Returns 0"
    using i2 d by blast
  have k: "import_and_empty \<lparr>shell32 = Some example_shell\<rparr> = Returns 4096"
    using i1 g e by simp
  show ?thesis using a c d e f g k by simp
qed

section \<open>Claims about the window\<close>

lemma active_runs_append:
  "active_runs (g\<lparr>workers := workers g @ [t]\<rparr>) = active_runs g + (if running t then 1 else 0)"
  by (simp add: active_runs_def)

text \<open>The invariant: a worker that is running is the one \<open>cleaner\<close> refers to.\<close>

lemma filter_running_le1:
  assumes "\<forall>j < length ws. running (ws ! j) \<longrightarrow> j = i"
  shows "length (filter running ws) \<le> 1"
proof -
  have "{j. j < length ws \<and> running (ws ! j)} \<subseteq> {i}" using assms by auto
  then have "card {j. j < length ws \<and> running (ws ! j)} \<le> card {i}"
    by (intro card_mono) auto
  then show ?thesis by (simp add: length_filter_conv_card)
qed

lemma filter_running_none:
  assumes "\<forall>j < length ws. \<not> running (ws ! j)"
  shows "length (filter running ws) = 0"
  using assms by (auto simp: filter_empty_conv in_set_conv_nth)

lemma start_clean_inv:
  assumes "\<forall>j < length (workers g). running (workers g ! j) \<longrightarrow> cleaner g = Some j"
  shows "\<forall>j < length (workers (start_clean g)).
           running (workers (start_clean g) ! j) \<longrightarrow> cleaner (start_clean g) = Some j"
proof (cases "cleaner_running g")
  case True
  then show ?thesis using assms by (simp add: start_clean_def)
next
  case False
  have none: "\<And>j. j < length (workers g) \<Longrightarrow> \<not> running (workers g ! j)"
  proof
    fix j assume j: "j < length (workers g)" and r: "running (workers g ! j)"
    then have "cleaner g = Some j" using assms by simp
    then have "cleaner_running g" using j r by (simp add: cleaner_running_def)
    then show False using False by simp
  qed
  show ?thesis
    using False none
    by (auto simp: start_clean_def Let_def set_busy_def nth_append)
qed

lemma step_inv:
  assumes "\<forall>j < length (workers g). running (workers g ! j) \<longrightarrow> cleaner g = Some j"
  shows "\<forall>j < length (workers (step a g)). running (workers (step a g) ! j) \<longrightarrow> cleaner (step a g) = Some j"
proof (cases a)
  case StartClean
  then show ?thesis using start_clean_inv [OF assms] by simp
next
  case (Toggle x)
  then show ?thesis using assms by (simp add: toggle_def)
next
  case (OnStage x1 x2 x3)
  then show ?thesis using assms by (simp add: on_stage_def)
next
  case (OnProgress x)
  then show ?thesis using assms by (simp add: on_progress_def)
next
  case (OnDone x)
  then show ?thesis
    using assms
    by (simp add: on_done_def update_progress_max_def refresh_browser_presence_def set_busy_def)
next
  case (WorkerReturns i)
  then show ?thesis
    using assms by (auto simp: worker_returns_def nth_list_update)
qed

lemma exec_inv:
  assumes "\<forall>j < length (workers g). running (workers g ! j) \<longrightarrow> cleaner g = Some j"
  shows "\<forall>j < length (workers (exec acts g)).
           running (workers (exec acts g) ! j) \<longrightarrow> cleaner (exec acts g) = Some j"
  using assms
proof (induction acts arbitrary: g)
  case Nil
  then show ?case by (simp add: exec_def)
next
  case (Cons a acts)
  have "exec (a # acts) g = exec acts (step a g)" by (simp add: exec_def)
  then show ?case using Cons.IH [OF step_inv [OF Cons.prems]] by simp
qed

lemma inv_active_le1:
  assumes "\<forall>j < length (workers g). running (workers g ! j) \<longrightarrow> cleaner g = Some j"
  shows "active_runs g \<le> 1"
proof (cases "cleaner g")
  case None
  then have "\<forall>j < length (workers g). \<not> running (workers g ! j)" using assms by auto
  then have "length (filter running (workers g)) = 0" by (rule filter_running_none)
  then show ?thesis by (simp add: active_runs_def)
next
  case (Some i)
  then have "\<forall>j < length (workers g). running (workers g ! j) \<longrightarrow> j = i" using assms by auto
  then show ?thesis unfolding active_runs_def by (rule filter_running_le1)
qed

text \<open>
  C9. After any sequence of start requests, checkbox clicks, slot calls and worker returns
  from the initial window, at most one worker is running; and a start request made while
  the current worker is running returns the window as it was: no field changes and no
  worker is added to the store.
\<close>

theorem start_clean_single_run:
  "active_runs (exec acts init_gui) \<le> 1 \<and>
   (cleaner_running g \<longrightarrow> start_clean g = g \<and> workers (start_clean g) = workers g) \<and>
   (cleaner_running (exec acts init_gui) \<longrightarrow>
      exec (acts @ [StartClean]) init_gui = exec acts init_gui)"
proof -
  have "\<forall>j < length (workers init_gui). running (workers init_gui ! j) \<longrightarrow> cleaner init_gui = Some j"
    by (simp add: init_gui_def)
  then have a: "active_runs (exec acts init_gui) \<le> 1"
    by (intro inv_active_le1 exec_inv)
  have b: "cleaner_running g \<longrightarrow> start_clean g = g \<and> workers (start_clean g) = workers g"
    by (simp add: start_clean_def)
  have c: "cleaner_running (exec acts init_gui) \<longrightarrow>
      exec (acts @ [StartClean]) init_gui = exec acts init_gui"
    by (simp add: exec_def start_clean_def)
  show ?thesis using a b c by blast
qed

text \<open>
  Two start requests in a row: the first starts a worker, the second finds it running and
  changes nothing.
\<close>

theorem start_clean_single_run_witness:
  "cleaner_running (exec [StartClean] init_gui) \<and>
   start_clean (exec [StartClean] init_gui) = exec [StartClean] init_gui \<and>
   exec ([StartClean] @ [StartClean]) init_gui = exec [StartClean] init_gui \<and>
   active_runs (exec [StartClean] init_gui) = 1"
proof -
  have r: "cleaner_running (exec [StartClean] init_gui)"
    by (simp add: exec_def start_clean_def cleaner_running_def init_gui_def Let_def set_busy_def)
  have n: "active_runs (exec [StartClean] init_gui) = 1"
    by (simp add: exec_def start_clean_def cleaner_running_def init_gui_def Let_def set_busy_def
        active_runs_def)
  show ?thesis
    using r n start_clean_single_run [of "[StartClean]" "exec [StartClean] init_gui"]
    by blast
qed

section \<open>Facts about the file system\<close>

subsection \<open>Path resolution\<close>

lemma descend_snoc:
  "descend t cur (xs @ [c]) =
     (case descend t cur xs of
        Arrived q \<Rightarrow> descend t q [c]
      | Jump p' \<Rightarrow> Jump (p' @ [c])
      | Stuck e \<Rightarrow> Stuck e)"
proof (induction xs arbitrary: cur)
  case Nil
  show ?case by simp
next
  case (Cons x xs)
  show ?case
    by (simp add: Cons.IH split: option.splits node.splits)
qed

lemma resolve_snoc_arrived:
  "resolve m t xs = Inr q \<Longrightarrow> descend t q [c] = Arrived q' \<Longrightarrow> resolve m t (xs @ [c]) = Inr q'"
proof (induction m arbitrary: xs)
  case 0
  then show ?case
    by (cases "descend t [] xs") (simp_all add: descend_snoc)
next
  case (Suc m)
  show ?case
  proof (cases "descend t [] xs")
    case (Arrived r)
    then show ?thesis using Suc.prems by (simp add: descend_snoc)
  next
    case (Jump p')
    then have "resolve m t p' = Inr q" using Suc.prems by simp
    then have "resolve m t (p' @ [c]) = Inr q'" using Suc.IH Suc.prems(2) by blast
    then show ?thesis using Jump by (simp add: descend_snoc)
  next
    case (Stuck e)
    then show ?thesis using Suc.prems by simp
  qed
qed

lemma resolve_Nil: "resolve m t [] = Inr []"
  by (cases m) simp_all

lemma lresolve_resolve:
  assumes "lresolve t p = Inr q" and "node_at t q = Some n" and "\<not> is_Link n"
  shows "resolve max_links t p = Inr q"
proof (cases "p = []")
  case True
  then show ?thesis using assms by (simp add: lresolve_def resolve_Nil)
next
  case False
  then have p: "p = butlast p @ [last p]" by simp
  from assms(1) False obtain q0 where
    r: "resolve max_links t (butlast p) = Inr q0" and
    d: "node_at t q0 = Some (Dir False)" and
    q: "q = q0 @ [last p]"
    by (auto simp: lresolve_def split: sum.splits option.splits node.splits if_splits)
  have "descend t q0 [last p] = Arrived q"
    using d q assms(2,3) by (cases n) simp_all
  then have "resolve max_links t (butlast p @ [last p]) = Inr q"
    using r by (rule resolve_snoc_arrived [rotated])
  then show ?thesis using p by simp
qed

subsection \<open>Changing the table\<close>

lemma map_of_set_node:
  "map_of (set_node t q n) k = (if k = q then map_option (\<lambda>_. n) (map_of t q) else map_of t k)"
  by (induction t) (auto simp: set_node_def)

lemma node_at_set_node:
  "q \<noteq> [] \<Longrightarrow> node_at (set_node t q n) k = (if k = q then map_option (\<lambda>_. n) (node_at t q) else node_at t k)"
  by (simp add: node_at_def map_of_set_node)

lemma map_of_remove_node:
  "map_of (remove_node t q) k = (if k = q then None else map_of t k)"
  by (induction t) (auto simp: remove_node_def)

lemma node_at_remove_node:
  "q \<noteq> [] \<Longrightarrow> node_at (remove_node t q) k = (if k = q then None else node_at t k)"
  by (simp add: node_at_def map_of_remove_node)

lemma remove_node_set_node: "remove_node (set_node t q n) q = remove_node t q"
  by (induction t) (auto simp: remove_node_def set_node_def)

lemma same_kind_None: "same_kind None b \<Longrightarrow> b = None"
  unfolding same_kind_def by blast

lemma same_kind_Dir: "same_kind (Some (Dir d)) b \<Longrightarrow> b = Some (Dir d)"
  unfolding same_kind_def by blast

lemma same_kind_Link: "same_kind (Some (Link dl tgt)) b \<Longrightarrow> b = Some (Link dl tgt)"
  unfolding same_kind_def by blast

lemma same_kind_File: "same_kind (Some (File s r l)) b \<Longrightarrow> \<exists>s' r' l'. b = Some (File s' r' l')"
  unfolding same_kind_def by blast

lemma similar_descend: "similar t t' \<Longrightarrow> descend t cur rest = descend t' cur rest"
proof (induction rest arbitrary: cur)
  case Nil
  show ?case by simp
next
  case (Cons c rest)
  have a: "same_kind (node_at t cur) (node_at t' cur)"
    and b: "same_kind (node_at t (cur @ [c])) (node_at t' (cur @ [c]))"
    using Cons.prems by (simp_all add: similar_def)
  note ih = Cons.IH [OF Cons.prems, of "cur @ [c]"]
  show ?case
  proof (cases "node_at t cur")
    case None
    with a have "node_at t' cur = None" by (simp add: same_kind_None)
    with None show ?thesis by simp
  next
    case (Some n)
    show ?thesis
    proof (cases n)
      case (File s r l)
      with a Some have "same_kind (Some (File s r l)) (node_at t' cur)" by simp
      then obtain s' r' l' where "node_at t' cur = Some (File s' r' l')"
        using same_kind_File by blast
      with Some File show ?thesis by simp
    next
      case (Link dl tgt)
      with a Some have "node_at t' cur = Some (Link dl tgt)" by (simp add: same_kind_Link)
      with Some Link show ?thesis by simp
    next
      case (Dir d)
      with a Some have cur': "node_at t' cur = Some (Dir d)" by (simp add: same_kind_Dir)
      show ?thesis
      proof (cases "node_at t (cur @ [c])")
        case None
        with b have "node_at t' (cur @ [c]) = None" by (simp add: same_kind_None)
        with None Some Dir cur' show ?thesis by simp
      next
        case inner: (Some n')
        show ?thesis
        proof (cases n')
          case (File s r l)
          with b inner have "same_kind (Some (File s r l)) (node_at t' (cur @ [c]))" by simp
          then obtain s' r' l' where "node_at t' (cur @ [c]) = Some (File s' r' l')"
            using same_kind_File by blast
          with inner File Some Dir cur' ih show ?thesis by simp
        next
          case (Link dl tgt)
          with b inner have "node_at t' (cur @ [c]) = Some (Link dl tgt)" by (simp add: same_kind_Link)
          with inner Link Some Dir cur' show ?thesis by simp
        next
          case inner_dir: (Dir d')
          with b inner have "node_at t' (cur @ [c]) = Some (Dir d')" by (simp add: same_kind_Dir)
          with inner inner_dir Some Dir cur' ih show ?thesis by simp
        qed
      qed
    qed
  qed
qed

lemma similar_resolve: "similar t t' \<Longrightarrow> resolve m t p = resolve m t' p"
proof (induction m arbitrary: p)
  case 0
  then show ?case by (simp add: similar_descend [of t t'])
next
  case (Suc m)
  have d: "descend t [] p = descend t' [] p" using Suc.prems by (rule similar_descend)
  show ?case
  proof (cases "descend t' [] p")
    case (Jump p')
    then show ?thesis using d Suc.IH [OF Suc.prems, of p'] by simp
  qed (use d in simp_all)
qed

lemma lresolve_unfold:
  "p \<noteq> [] \<Longrightarrow> resolve max_links t (butlast p) = Inr q \<Longrightarrow>
   lresolve t p =
     (case node_at t q of
        None \<Rightarrow> Inl ENOENT
      | Some (File s r l) \<Rightarrow> Inl ENOTDIR
      | Some (Link dl tgt) \<Rightarrow> Inl ENOTDIR
      | Some (Dir denied) \<Rightarrow>
          (if denied then Inl EACCES
           else (case node_at t (q @ [last p]) of None \<Rightarrow> Inl ENOENT | Some n \<Rightarrow> Inr (q @ [last p]))))"
  by (simp add: lresolve_def)

lemma similar_lresolve: "similar t t' \<Longrightarrow> lresolve t p = lresolve t' p"
proof -
  assume s: "similar t t'"
  have k: "\<And>k. same_kind (node_at t k) (node_at t' k)" using s by (simp add: similar_def)
  show ?thesis
  proof (cases "p = []")
    case True then show ?thesis by (simp add: lresolve_def)
  next
    case False
    show ?thesis
    proof (cases "resolve max_links t' (butlast p)")
      case (Inl e)
      then show ?thesis using False by (simp add: lresolve_def similar_resolve [OF s])
    next
      case (Inr q)
      have r: "resolve max_links t (butlast p) = Inr q"
        using Inr by (simp add: similar_resolve [OF s])
      note u = lresolve_unfold [OF False r] lresolve_unfold [OF False Inr]
      show ?thesis
      proof (cases "node_at t q")
        case None
        with k [of q] have "node_at t' q = None" by (simp add: same_kind_None)
        with None show ?thesis by (simp add: u)
      next
        case (Some n)
        show ?thesis
        proof (cases n)
          case (File s r l)
          with k [of q] Some have "same_kind (Some (File s r l)) (node_at t' q)" by simp
          then obtain s' r' l' where "node_at t' q = Some (File s' r' l')"
            using same_kind_File by blast
          with Some File show ?thesis by (simp add: u)
        next
          case (Link dl tgt)
          with k [of q] Some have "node_at t' q = Some (Link dl tgt)" by (simp add: same_kind_Link)
          with Some Link show ?thesis by (simp add: u)
        next
          case (Dir d)
          with k [of q] Some have q': "node_at t' q = Some (Dir d)" by (simp add: same_kind_Dir)
          have "(node_at t (q @ [last p]) = None) = (node_at t' (q @ [last p]) = None)"
            using k [of "q @ [last p]"] unfolding same_kind_def by auto
          then show ?thesis using Some Dir q' by (auto simp add: u split: option.splits)
        qed
      qed
    qed
  qed
qed

lemma similar_set_node:
  "node_at t q = Some (File s r l) \<Longrightarrow> similar t (set_node t q (File s' r' l'))"
proof -
  assume a: "node_at t q = Some (File s r l)"
  then have "q \<noteq> []" by (auto simp: node_at_def)
  then show ?thesis using a
    by (auto simp: similar_def same_kind_def node_at_set_node)
qed

subsection \<open>System calls\<close>

lemma tick_files: "files (snd (tick w)) = files w"
  by (simp add: tick_def split: list.splits)

lemma tick_no_faults: "faults w = [] \<Longrightarrow> tick w = (False, w)"
  by (simp add: tick_def)

lemma sys_read_files: "files (snd (sys_read f w)) = files w"
  by (simp add: sys_read_def tick_files split: prod.splits)
     (metis tick_files snd_conv)

lemma sys_read_no_faults: "faults w = [] \<Longrightarrow> sys_read f w = (f (files w), w)"
  by (simp add: sys_read_def tick_no_faults)

lemma sys_read_result:
  "sys_read f w = (Inr a, w') \<Longrightarrow> f (files w) = Inr a"
  by (auto simp: sys_read_def split: prod.splits if_splits) (metis tick_files snd_conv)

lemma sys_read_error:
  "sys_read f w = (Inl e, w') \<Longrightarrow> e = EIO \<or> f (files w) = Inl e"
  by (auto simp: sys_read_def split: prod.splits if_splits) (metis tick_files snd_conv)

lemma sys_write_no_faults:
  "faults w = [] \<Longrightarrow>
   sys_write f w = (case f (files w) of Inl e \<Rightarrow> (Inl e, w) | Inr t \<Rightarrow> (Inr (), w\<lparr>files := t\<rparr>))"
  by (simp add: sys_write_def tick_no_faults)

lemma sys_write_files:
  "files (snd (sys_write f w)) = files w \<or> f (files w) = Inr (files (snd (sys_write f w)))"
proof -
  obtain b w1 where t: "tick w = (b, w1)" by (cases "tick w")
  then have f: "files w1 = files w" using tick_files [of w] by simp
  show ?thesis
    using t f by (cases "f (files w)") (simp_all add: sys_write_def)
qed

lemma links_kept_refl: "links_kept t t"
  by (simp add: links_kept_def)

lemma links_kept_trans: "links_kept t t' \<Longrightarrow> links_kept t' t'' \<Longrightarrow> links_kept t t''"
  by (simp add: links_kept_def)

lemma same_kind_refl: "same_kind a a"
  by (simp add: same_kind_def)

lemma same_kind_sym: "same_kind a b \<Longrightarrow> same_kind b a"
  unfolding same_kind_def by blast

lemma same_kind_trans: "same_kind a b \<Longrightarrow> same_kind b c \<Longrightarrow> same_kind a c"
  unfolding same_kind_def by blast

lemma similar_refl: "similar t t"
  by (simp add: similar_def same_kind_refl)

lemma similar_sym: "similar t t' \<Longrightarrow> similar t' t"
  by (simp add: similar_def same_kind_sym)

lemma similar_trans: "similar t t' \<Longrightarrow> similar t' t'' \<Longrightarrow> similar t t''"
  unfolding similar_def using same_kind_trans by blast

lemma similar_links_kept: "similar t t' \<Longrightarrow> links_kept t t'"
proof -
  assume s: "similar t t'"
  show ?thesis
    unfolding links_kept_def
  proof (intro allI impI)
    fix k dl tgt
    assume "node_at t k = Some (Link dl tgt)"
    moreover have "same_kind (node_at t k) (node_at t' k)" using s by (simp add: similar_def)
    ultimately show "node_at t' k = Some (Link dl tgt)" by (simp add: same_kind_Link)
  qed
qed

lemma fs_chmod_similar: "fs_chmod t p = Inr t' \<Longrightarrow> similar t t'"
proof -
  assume a: "fs_chmod t p = Inr t'"
  then obtain q where q: "resolve max_links t p = Inr q"
    by (cases "resolve max_links t p") (simp_all add: fs_chmod_def)
  then obtain n where n: "node_at t q = Some n"
    using a by (cases "node_at t q") (simp_all add: fs_chmod_def)
  show ?thesis
  proof (cases n)
    case (File s r l)
    then have "t' = set_node t q (File s False l)" using a q n by (simp add: fs_chmod_def)
    then show ?thesis using similar_set_node n File by simp
  next
    case (Dir d)
    then have "t' = t" using a q n by (simp add: fs_chmod_def)
    then show ?thesis by (simp add: similar_refl)
  next
    case (Link dl tgt)
    then have "t' = t" using a q n by (simp add: fs_chmod_def)
    then show ?thesis by (simp add: similar_refl)
  qed
qed

lemma os_chmod_similar: "similar (files w) (files (snd (os_chmod p w)))"
proof -
  from sys_write_files [of "\<lambda>t. fs_chmod t p" w]
  have "files (snd (os_chmod p w)) = files w \<or>
        fs_chmod (files w) p = Inr (files (snd (os_chmod p w)))"
    by (simp add: os_chmod_def)
  then show ?thesis
  proof
    assume "files (snd (os_chmod p w)) = files w"
    then show ?thesis by (simp add: similar_refl)
  next
    assume "fs_chmod (files w) p = Inr (files (snd (os_chmod p w)))"
    then show ?thesis by (rule fs_chmod_similar)
  qed
qed

text \<open>What \<open>os.unlink\<close> removes is a file or a link, at the place the path names.\<close>

lemma fs_unlink_removes:
  "fs_unlink t p = Inr t' \<Longrightarrow>
   \<exists>q n. lresolve t p = Inr q \<and> node_at t q = Some n \<and> \<not> is_Dir n \<and> q \<noteq> [] \<and> t' = remove_node t q"
proof -
  assume a: "fs_unlink t p = Inr t'"
  then obtain q where q: "lresolve t p = Inr q"
    by (cases "lresolve t p") (simp_all add: fs_unlink_def)
  then obtain n where n: "node_at t q = Some n"
    using a by (cases "node_at t q") (simp_all add: fs_unlink_def)
  have nd: "\<not> is_Dir n" and t': "t' = remove_node t q"
    using a q n by (cases n; simp add: fs_unlink_def split: if_splits)+
  have "q \<noteq> []" using n nd by (auto simp: node_at_def)
  then show ?thesis using q n nd t' by blast
qed

lemma remove_node_links_kept:
  "node_at t q = Some n \<Longrightarrow> \<not> is_Link n \<Longrightarrow> q \<noteq> [] \<Longrightarrow> links_kept t (remove_node t q)"
  by (auto simp: links_kept_def node_at_remove_node)

subsection \<open>Calls that only read\<close>

lemma sys_read_cases: "fst (sys_read f w) = Inl EIO \<or> fst (sys_read f w) = f (files w)"
proof -
  obtain b w1 where t: "tick w = (b, w1)" by (cases "tick w")
  then have "files w1 = files w" using tick_files [of w] by simp
  then show ?thesis using t by (simp add: sys_read_def)
qed

lemma os_stat_files: "files (snd (os_stat p w)) = files w"
  by (simp add: os_stat_def sys_read_files)

lemma os_lstat_files: "files (snd (os_lstat p w)) = files w"
  by (simp add: os_lstat_def sys_read_files)

lemma os_scandir_files: "files (snd (os_scandir p w)) = files w"
  by (simp add: os_scandir_def sys_read_files)

lemma path_test_files: "files (snd (path_test P r)) = files (snd r)"
  by (cases r) (simp add: path_test_def split: sum.splits)

lemma path_exists_files: "files (snd (path_exists p w)) = files w"
  by (simp add: path_exists_def path_test_files os_stat_files)

lemma path_is_dir_files: "files (snd (path_is_dir p w)) = files w"
  by (simp add: path_is_dir_def path_test_files os_stat_files)

lemma path_is_file_files: "files (snd (path_is_file p w)) = files w"
  by (simp add: path_is_file_def path_test_files os_stat_files)

lemma path_is_symlink_files: "files (snd (path_is_symlink p w)) = files w"
  by (simp add: path_is_symlink_def path_test_files os_lstat_files)

lemma entry_test_files: "files (snd (entry_test P p n w)) = files w"
proof (cases "is_Link n")
  case True
  obtain r w1 where s: "os_stat p w = (r, w1)" by (cases "os_stat p w")
  then have "files w1 = files w" using os_stat_files [of p w] by simp
  then show ?thesis using True s by (cases r) (simp_all add: entry_test_def)
next
  case False
  then show ?thesis by (simp add: entry_test_def)
qed

lemma path_test_result:
  "path_test P (sys_read f w) = (Inr b, w') \<Longrightarrow>
     (\<exists>n. f (files w) = Inr n \<and> b = P n) \<or> (\<exists>e. f (files w) = Inl e \<and> ignore_error e \<and> \<not> b)"
proof -
  assume a: "path_test P (sys_read f w) = (Inr b, w')"
  obtain r w1 where s: "sys_read f w = (r, w1)" by (cases "sys_read f w")
  from sys_read_cases [of f w] s have c: "r = Inl EIO \<or> r = f (files w)" by simp
  show ?thesis
  proof (cases r)
    case (Inl e)
    with a s have ig: "ignore_error e" and nb: "\<not> b"
      by (auto simp: path_test_def split: if_splits)
    from ig have "e \<noteq> EIO" by (auto simp: ignore_error_def)
    with c Inl have "f (files w) = Inl e" by auto
    with ig nb show ?thesis by blast
  next
    case (Inr n)
    with a s have "b = P n" by (simp add: path_test_def)
    moreover from c Inr have "f (files w) = Inr n" by auto
    ultimately show ?thesis by blast
  qed
qed

lemma path_is_symlink_False:
  assumes "path_is_symlink p w = (Inr False, w')"
  shows "fs_lstat (files w) p \<noteq> Inr (Link dl tgt)"
proof
  assume l: "fs_lstat (files w) p = Inr (Link dl tgt)"
  from assms have "path_test is_Link (sys_read (\<lambda>t. fs_lstat t p) w) = (Inr False, w')"
    by (simp add: path_is_symlink_def os_lstat_def)
  from path_test_result [OF this] l show False by auto
qed

lemma path_is_symlink_of_link:
  assumes "fs_lstat (files w) p = Inr (Link dl tgt)"
  shows "fst (path_is_symlink p w) = Inl EIO \<or> fst (path_is_symlink p w) = Inr True"
proof -
  obtain r w1 where s: "sys_read (\<lambda>t. fs_lstat t p) w = (r, w1)"
    by (cases "sys_read (\<lambda>t. fs_lstat t p) w")
  from sys_read_cases [of "\<lambda>t. fs_lstat t p" w] s assms
  have "r = Inl EIO \<or> r = Inr (Link dl tgt)" by simp
  then show ?thesis
    using s by (auto simp: path_is_symlink_def os_lstat_def path_test_def ignore_error_def)
qed

subsection \<open>\<open>os.unlink\<close> after a test for links\<close>

lemma fs_unlink_keeps_links:
  assumes nl: "\<And>dl tgt. fs_lstat t p \<noteq> Inr (Link dl tgt)"
    and s: "similar t t4"
    and u: "fs_unlink t4 p = Inr t5"
  shows "links_kept t4 t5"
proof -
  from fs_unlink_removes [OF u] obtain q n where
    q: "lresolve t4 p = Inr q" and n: "node_at t4 q = Some n" and q0: "q \<noteq> []"
    and t5: "t5 = remove_node t4 q"
    by blast
  have lq: "lresolve t p = Inr q" using q similar_lresolve [OF s, of p] by simp
  have "\<not> is_Link n"
  proof
    assume "is_Link n"
    then obtain dl tgt where "n = Link dl tgt" by (cases n) simp_all
    with n have "node_at t4 q = Some (Link dl tgt)" by simp
    moreover have "same_kind (node_at t4 q) (node_at t q)"
      using similar_sym [OF s] by (simp add: similar_def)
    ultimately have "node_at t q = Some (Link dl tgt)" by (simp add: same_kind_Link)
    with lq have "fs_lstat t p = Inr (Link dl tgt)" by (simp add: fs_lstat_def)
    with nl show False by blast
  qed
  with n q0 t5 show ?thesis by (simp add: remove_node_links_kept)
qed

lemma path_unlink_files: "files (snd (path_unlink p w)) = files (snd (os_unlink p w))"
  by (simp add: path_unlink_def split: prod.splits sum.splits)

lemma os_unlink_keeps_links:
  assumes nl: "\<And>dl tgt. fs_lstat t p \<noteq> Inr (Link dl tgt)"
    and s: "similar t (files w)"
  shows "links_kept (files w) (files (snd (os_unlink p w)))"
proof -
  from sys_write_files [of "\<lambda>t. fs_unlink t p" w]
  have "files (snd (os_unlink p w)) = files w \<or>
        fs_unlink (files w) p = Inr (files (snd (os_unlink p w)))"
    by (simp add: os_unlink_def)
  then show ?thesis
  proof
    assume "files (snd (os_unlink p w)) = files w"
    then show ?thesis by (simp add: links_kept_refl)
  next
    assume "fs_unlink (files w) p = Inr (files (snd (os_unlink p w)))"
    then show ?thesis using nl s by (rule fs_unlink_keeps_links [rotated 2])
  qed
qed

subsection \<open>\<open>safe_remove_file\<close>\<close>

lemma safe_remove_file_snd: "snd (safe_remove_file p w) = snd (safe_remove_file_try p w)"
  by (simp add: safe_remove_file_def split: prod.splits sum.splits)

lemma safe_remove_file_returns: "\<exists>n. fst (safe_remove_file p w) = Inr n"
  by (simp add: safe_remove_file_def split: prod.splits sum.splits)

lemma safe_remove_file_try_links: "links_kept (files w) (files (snd (safe_remove_file_try p w)))"
proof -
  obtain r1 w1 where e: "path_exists p w = (r1, w1)" by (cases "path_exists p w")
  have f1: "files w1 = files w" using path_exists_files [of p w] e by simp
  show ?thesis
  proof (cases r1)
    case (Inl x)
    then show ?thesis using e f1 by (simp add: safe_remove_file_try_def links_kept_refl)
  next
    case (Inr ex)
    show ?thesis
    proof (cases ex)
      case False
      then show ?thesis using e f1 Inr by (simp add: safe_remove_file_try_def links_kept_refl)
    next
      case True
      obtain r2 w2 where l: "path_is_symlink p w1 = (r2, w2)" by (cases "path_is_symlink p w1")
      have f2: "files w2 = files w" using path_is_symlink_files [of p w1] l f1 by simp
      show ?thesis
      proof (cases r2)
        case (Inl x)
        then show ?thesis
          using e Inr True l f2 by (simp add: safe_remove_file_try_def links_kept_refl)
      next
        case sl: (Inr b)
        show ?thesis
        proof (cases b)
          case True
          then show ?thesis
            using e Inr \<open>ex\<close> l sl f2 by (simp add: safe_remove_file_try_def links_kept_refl)
        next
          case False
          have nl: "\<And>dl tgt. fs_lstat (files w) p \<noteq> Inr (Link dl tgt)"
            using path_is_symlink_False [of p w1 w2] l sl False f1 by simp
          obtain r3 w3 where s3: "os_stat p w2 = (r3, w3)" by (cases "os_stat p w2")
          have f3: "files w3 = files w" using os_stat_files [of p w2] s3 f2 by simp
          obtain r4 w4 where s4: "os_chmod p w3 = (r4, w4)" by (cases "os_chmod p w3")
          have sim: "similar (files w) (files w4)"
            using os_chmod_similar [of w3 p] s4 f3 by simp
          have k1: "links_kept (files w) (files w4)" using sim by (rule similar_links_kept)
          have k2: "links_kept (files w4) (files (snd (path_unlink p w4)))"
            unfolding path_unlink_files using nl sim by (rule os_unlink_keeps_links)
          have "snd (safe_remove_file_try p w) = snd (path_unlink p w4)"
            using e Inr \<open>ex\<close> l sl False s3 s4
            by (simp add: safe_remove_file_try_def split: prod.splits sum.splits)
          then show ?thesis using links_kept_trans [OF k1 k2] by simp
        qed
      qed
    qed
  qed
qed

lemma safe_remove_file_links: "links_kept (files w) (files (snd (safe_remove_file p w)))"
  by (simp add: safe_remove_file_snd safe_remove_file_try_links)

lemma safe_remove_file_on_link:
  assumes "fs_lstat (files w) p = Inr (Link dl tgt)"
  shows "fst (safe_remove_file p w) = Inr 0 \<and> files (snd (safe_remove_file p w)) = files w"
proof -
  obtain r1 w1 where e: "path_exists p w = (r1, w1)" by (cases "path_exists p w")
  have f1: "files w1 = files w" using path_exists_files [of p w] e by simp
  obtain r2 w2 where l: "path_is_symlink p w1 = (r2, w2)" by (cases "path_is_symlink p w1")
  have f2: "files w2 = files w" using path_is_symlink_files [of p w1] l f1 by simp
  have r2: "r2 = Inl EIO \<or> r2 = Inr True"
    using path_is_symlink_of_link [of w1 p dl tgt] assms f1 l by simp
  show ?thesis
  proof (cases r1)
    case (Inl x)
    then show ?thesis using e f1 by (simp add: safe_remove_file_def safe_remove_file_try_def)
  next
    case (Inr ex)
    then show ?thesis
      using e f1 l f2 r2
      by (cases ex) (auto simp: safe_remove_file_def safe_remove_file_try_def)
  qed
qed

subsection \<open>\<open>delete_globs\<close>\<close>

lemma glob_entries_links:
  "links_kept (files w) (files (snd (snd (glob_entries fnm folder patterns es freed w))))"
proof (induction es arbitrary: freed w)
  case Nil
  show ?case by (simp add: links_kept_refl)
next
  case (Cons en es)
  obtain name n where en: "en = (name, n)" by (cases en)
  obtain r1 w1 where t: "entry_is_file (folder @ [name]) n w = (r1, w1)"
    by (cases "entry_is_file (folder @ [name]) n w")
  have f1: "files w1 = files w"
    using entry_test_files [of is_File "folder @ [name]" n w] t by (simp add: entry_is_file_def)
  show ?case
  proof (cases r1)
    case (Inl e)
    then show ?thesis using en t f1 by (simp add: links_kept_refl)
  next
    case (Inr f)
    show ?thesis
    proof (cases "f \<and> list_ex (fnm name) patterns")
      case False
      then show ?thesis
        using en t Inr f1 Cons.IH [where w = w1 and freed = freed] by auto
    next
      case True
      obtain r2 w2 where s: "safe_remove_file (folder @ [name]) w1 = (r2, w2)"
        by (cases "safe_remove_file (folder @ [name]) w1")
      have k1: "links_kept (files w) (files w2)"
        using safe_remove_file_links [of w1 "folder @ [name]"] s f1 by simp
      show ?thesis
      proof (cases r2)
        case (Inl e)
        then show ?thesis using en t Inr True s k1 by simp
      next
        case inner: (Inr m)
        have "links_kept (files w2)
                (files (snd (snd (glob_entries fnm folder patterns es (freed + m) w2))))"
          by (rule Cons.IH)
        then have "links_kept (files w)
                (files (snd (snd (glob_entries fnm folder patterns es (freed + m) w2))))"
          using k1 links_kept_trans by blast
        then show ?thesis using en t Inr True s inner by simp
      qed
    qed
  qed
qed

lemma delete_globs_links: "links_kept (files w) (files (snd (delete_globs fnm folder patterns w)))"
proof -
  obtain r1 w1 where e: "path_exists folder w = (r1, w1)" by (cases "path_exists folder w")
  have f1: "files w1 = files w" using path_exists_files [of folder w] e by simp
  obtain r2 w2 where d: "path_is_dir folder w1 = (r2, w2)" by (cases "path_is_dir folder w1")
  have f2: "files w2 = files w" using path_is_dir_files [of folder w1] d f1 by simp
  obtain r3 w3 where s: "os_scandir folder w2 = (r3, w3)" by (cases "os_scandir folder w2")
  have f3: "files w3 = files w" using os_scandir_files [of folder w2] s f2 by simp
  have g: "\<And>es x a b. glob_entries fnm folder patterns es 0 w3 = (x, a, b) \<Longrightarrow>
             links_kept (files w) (files b)"
  proof -
    fix es x a b
    assume "glob_entries fnm folder patterns es 0 w3 = (x, a, b)"
    then show "links_kept (files w) (files b)"
      using glob_entries_links [of w3 fnm folder patterns es 0] f3 by simp
  qed
  show ?thesis
    using e f1 d f2 s f3 g
    by (auto simp: delete_globs_def links_kept_refl split: sum.splits prod.splits)
qed

lemma entry_is_file_link_to_file:
  assumes "faults w = []" and "fs_stat (files w) p = Inr (File s r l)"
  shows "entry_is_file p (Link dl tgt) w = (Inr True, w)"
  using assms by (simp add: entry_is_file_def entry_test_def os_stat_def sys_read_no_faults)

section \<open>Claims about the deletion primitives\<close>

text \<open>
  C10. \<open>delete_globs\<close> never deletes a symbolic link, whatever the folder, the patterns,
  the matcher and the faults: every link of the table is still there afterwards. A link
  entry whose target is a regular file passes \<open>entry.is_file()\<close>, which follows links, but
  \<open>safe_remove_file\<close> on a path that names a link returns 0 and leaves the table as it
  is.
\<close>

theorem delete_globs_keeps_symlinks:
  "(node_at (files w) k = Some (Link dl tgt) \<longrightarrow>
      node_at (files (snd (delete_globs fnm folder patterns w))) k = Some (Link dl tgt)) \<and>
   (fs_lstat (files w) (folder @ [name]) = Inr (Link dl tgt) \<longrightarrow>
      fst (safe_remove_file (folder @ [name]) w) = Inr 0 \<and>
      files (snd (safe_remove_file (folder @ [name]) w)) = files w) \<and>
   (faults w = [] \<and> fs_stat (files w) (folder @ [name]) = Inr (File s r l) \<longrightarrow>
      entry_is_file (folder @ [name]) (Link dl tgt) w = (Inr True, w))"
proof -
  have a: "node_at (files w) k = Some (Link dl tgt) \<longrightarrow>
      node_at (files (snd (delete_globs fnm folder patterns w))) k = Some (Link dl tgt)"
    using delete_globs_links [of w fnm folder patterns] by (simp add: links_kept_def)
  have b: "fs_lstat (files w) (folder @ [name]) = Inr (Link dl tgt) \<longrightarrow>
      fst (safe_remove_file (folder @ [name]) w) = Inr 0 \<and>
      files (snd (safe_remove_file (folder @ [name]) w)) = files w"
    using safe_remove_file_on_link by blast
  have c: "faults w = [] \<and> fs_stat (files w) (folder @ [name]) = Inr (File s r l) \<longrightarrow>
      entry_is_file (folder @ [name]) (Link dl tgt) w = (Inr True, w)"
    using entry_is_file_link_to_file by blast
  show ?thesis using a b c by blast
qed

text \<open>
  In the example folder the link \<open>thumbcache_link.db\<close> matches \<open>thumbcache*.db\<close> and
  points to a file of 500 bytes. The two databases are deleted (300 bytes); the link and
  its target stay.
\<close>

theorem delete_globs_keeps_symlinks_witness:
  "node_at (files explorer_world) [''Explorer'', ''thumbcache_link.db''] =
     Some (Link False [''docs'', ''report.db'']) \<and>
   fs_lstat (files explorer_world) ([''Explorer''] @ [''thumbcache_link.db'']) =
     Inr (Link False [''docs'', ''report.db'']) \<and>
   faults explorer_world = [] \<and>
   fs_stat (files explorer_world) ([''Explorer''] @ [''thumbcache_link.db'']) =
     Inr (File 500 False False) \<and>
   fnmatch ''thumbcache_link.db'' ''thumbcache*.db'' \<and>
   node_at (files (snd (delete_globs fnmatch [''Explorer''] [''thumbcache*.db''] explorer_world)))
     [''Explorer'', ''thumbcache_link.db''] = Some (Link False [''docs'', ''report.db'']) \<and>
   fst (safe_remove_file ([''Explorer''] @ [''thumbcache_link.db'']) explorer_world) = Inr 0 \<and>
   entry_is_file ([''Explorer''] @ [''thumbcache_link.db'']) (Link False [''docs'', ''report.db''])
     explorer_world = (Inr True, explorer_world) \<and>
   fst (delete_globs fnmatch [''Explorer''] [''thumbcache*.db''] explorer_world) = Inr 300 \<and>
   node_at (files (snd (delete_globs fnmatch [''Explorer''] [''thumbcache*.db''] explorer_world)))
     [''docs'', ''report.db''] = Some (File 500 False False)"
proof -
  have h1: "node_at (files explorer_world) [''Explorer'', ''thumbcache_link.db''] =
     Some (Link False [''docs'', ''report.db''])"
    by code_simp
  have h2: "fs_lstat (files explorer_world) ([''Explorer''] @ [''thumbcache_link.db'']) =
     Inr (Link False [''docs'', ''report.db''])"
    by code_simp
  have h3: "faults explorer_world = []"
    by (simp add: explorer_world_def)
  have h4: "fs_stat (files explorer_world) ([''Explorer''] @ [''thumbcache_link.db'']) =
     Inr (File 500 False False)"
    by code_simp
  have m: "fnmatch ''thumbcache_link.db'' ''thumbcache*.db''"
    by code_simp
  have v: "fst (delete_globs fnmatch [''Explorer''] [''thumbcache*.db''] explorer_world) = Inr 300"
    by code_simp
  have u: "node_at (files (snd (delete_globs fnmatch [''Explorer''] [''thumbcache*.db''] explorer_world)))
     [''docs'', ''report.db''] = Some (File 500 False False)"
    by code_simp
  note c10 = delete_globs_keeps_symlinks
    [where w = explorer_world and k = "[''Explorer'', ''thumbcache_link.db'']" and dl = False
       and tgt = "[''docs'', ''report.db'']" and fnm = fnmatch and folder = "[''Explorer'']"
       and patterns = "[''thumbcache*.db'']" and name = "''thumbcache_link.db''"
       and s = 500 and r = False and l = False]
  show ?thesis
    using h1 h2 h3 h4 m v u c10 by blast
qed

lemma tick_Cons: "faults w = b # bs \<Longrightarrow> tick w = (b, w\<lparr>faults := bs\<rparr>)"
  by (simp add: tick_def)

lemma safe_remove_file_missing:
  assumes "faults w = []" and "fs_stat (files w) p = Inl e" and "ignore_error e"
  shows "safe_remove_file p w = (Inr 0, w)"
  using assms
  by (simp add: safe_remove_file_def safe_remove_file_try_def path_exists_def os_stat_def
      sys_read_no_faults path_test_def)

text \<open>The calls of \<open>safe_remove_file\<close> on a path that names a regular file.\<close>

lemma regular_file_calls:
  assumes q: "lresolve t p = Inr q" and n: "node_at t q = Some (File s r l)"
  shows "fs_stat t p = Inr (File s r l)"
    and "fs_lstat t p = Inr (File s r l)"
    and "fs_chmod t p = Inr (set_node t q (File s False l))"
    and "fs_unlink (set_node t q (File s False l)) p =
           (if l then Inl EACCES else Inr (remove_node t q))"
proof -
  have res: "resolve max_links t p = Inr q"
    using q n by (rule lresolve_resolve) simp
  show "fs_stat t p = Inr (File s r l)" using res n by (simp add: fs_stat_def)
  show "fs_lstat t p = Inr (File s r l)" using q n by (simp add: fs_lstat_def)
  show "fs_chmod t p = Inr (set_node t q (File s False l))"
    using res n by (simp add: fs_chmod_def)
  have q0: "q \<noteq> []" using n by (auto simp: node_at_def)
  let ?t4 = "set_node t q (File s False l)"
  have sim: "similar t ?t4" using n by (rule similar_set_node)
  have lq: "lresolve ?t4 p = Inr q" using similar_lresolve [OF sim, of p] q by simp
  have n4: "node_at ?t4 q = Some (File s False l)" using q0 n by (simp add: node_at_set_node)
  show "fs_unlink ?t4 p = (if l then Inl EACCES else Inr (remove_node t q))"
    using lq n4 by (simp add: fs_unlink_def remove_node_set_node)
qed

lemma safe_remove_file_regular:
  assumes f: "faults w = []"
    and q: "lresolve (files w) p = Inr q" and n: "node_at (files w) q = Some (File s r False)"
  shows "safe_remove_file p w = (Inr s, w\<lparr>files := remove_node (files w) q\<rparr>)"
  using f regular_file_calls [OF q n]
  by (simp add: safe_remove_file_def safe_remove_file_try_def path_exists_def
      path_is_symlink_def path_unlink_def os_stat_def os_lstat_def os_chmod_def os_unlink_def
      sys_read_no_faults sys_write_no_faults path_test_def)

lemma safe_remove_file_locked:
  assumes f: "faults w = []"
    and q: "lresolve (files w) p = Inr q" and n: "node_at (files w) q = Some (File s r True)"
  shows "safe_remove_file p w = (Inr 0, w\<lparr>files := set_node (files w) q (File s False True)\<rparr>)"
  using f regular_file_calls [OF q n]
  by (simp add: safe_remove_file_def safe_remove_file_try_def path_exists_def
      path_is_symlink_def path_unlink_def os_stat_def os_lstat_def os_chmod_def os_unlink_def
      sys_read_no_faults sys_write_no_faults path_test_def)

lemma safe_remove_file_size_fault:
  assumes f: "faults w = [False, False, True]"
    and q: "lresolve (files w) p = Inr q" and n: "node_at (files w) q = Some (File s r False)"
  shows "safe_remove_file p w = (Inr 0, w\<lparr>files := remove_node (files w) q, faults := []\<rparr>)"
  using f regular_file_calls [OF q n]
  by (simp add: safe_remove_file_def safe_remove_file_try_def path_exists_def
      path_is_symlink_def path_unlink_def os_stat_def os_lstat_def os_chmod_def os_unlink_def
      sys_read_def sys_write_def tick_def path_test_def)

lemma safe_remove_file_not_exists:
  "path_exists p w = (Inr False, w1) \<Longrightarrow> safe_remove_file p w = (Inr 0, w1)"
  by (simp add: safe_remove_file_def safe_remove_file_try_def)

lemma safe_remove_file_failure:
  "fst (safe_remove_file_try p w) = Inl e \<Longrightarrow> fst (safe_remove_file p w) = Inr 0"
  by (cases "safe_remove_file_try p w") (simp add: safe_remove_file_def)

text \<open>
  C6. \<open>safe_remove_file\<close> never raises. It returns 0 and deletes nothing when \<open>exists()\<close>
  is false and when the path names a symbolic link, and it returns 0 when anything inside
  its \<open>try\<close> raises (a locked file: the deletion is refused, after the read-only attribute
  was cleared). On a regular file that is not locked, with no fault, it returns the size
  read before the deletion and the file is gone, read-only or not. When the size read is
  the call that fails, it returns 0 and the file is gone all the same.
\<close>

theorem safe_remove_file_behaviour:
  "(\<exists>n. fst (safe_remove_file p w) = Inr n) \<and>
   (path_exists p w = (Inr False, w1) \<longrightarrow> safe_remove_file p w = (Inr 0, w1)) \<and>
   (fs_lstat (files w) p = Inr (Link dl tgt) \<longrightarrow>
      fst (safe_remove_file p w) = Inr 0 \<and> files (snd (safe_remove_file p w)) = files w) \<and>
   (fst (safe_remove_file_try p w) = Inl e \<longrightarrow> fst (safe_remove_file p w) = Inr 0) \<and>
   (faults w = [] \<and> lresolve (files w) p = Inr q \<and> node_at (files w) q = Some (File s r True) \<longrightarrow>
      safe_remove_file p w = (Inr 0, w\<lparr>files := set_node (files w) q (File s False True)\<rparr>)) \<and>
   (faults w = [] \<and> lresolve (files w) p = Inr q \<and> node_at (files w) q = Some (File s r False) \<longrightarrow>
      safe_remove_file p w = (Inr s, w\<lparr>files := remove_node (files w) q\<rparr>)) \<and>
   (faults w = [False, False, True] \<and> lresolve (files w) p = Inr q \<and>
    node_at (files w) q = Some (File s r False) \<longrightarrow>
      safe_remove_file p w = (Inr 0, w\<lparr>files := remove_node (files w) q, faults := []\<rparr>))"
  using safe_remove_file_returns [of p w] safe_remove_file_not_exists [of p w w1]
    safe_remove_file_on_link [of w p dl tgt] safe_remove_file_failure [of p w e]
    safe_remove_file_locked [of w p q s r] safe_remove_file_regular [of w p q s r]
    safe_remove_file_size_fault [of w p q s r]
  by blast

text \<open>
  In the example folder: a missing file; the link; the locked icon cache; the read-only
  database of 200 bytes, which is deleted and counted; and the same database when the
  third system call, the size read, fails.
\<close>

theorem safe_remove_file_behaviour_witness:
  "path_exists [''Explorer'', ''nothing''] explorer_world = (Inr False, explorer_world) \<and>
   safe_remove_file [''Explorer'', ''nothing''] explorer_world = (Inr 0, explorer_world) \<and>
   fs_lstat (files explorer_world) [''Explorer'', ''thumbcache_link.db''] =
     Inr (Link False [''docs'', ''report.db'']) \<and>
   fst (safe_remove_file [''Explorer'', ''thumbcache_link.db''] explorer_world) = Inr 0 \<and>
   fst (safe_remove_file_try [''Explorer'', ''iconcache_16.db''] explorer_world) = Inl EACCES \<and>
   fst (safe_remove_file [''Explorer'', ''iconcache_16.db''] explorer_world) = Inr 0 \<and>
   faults explorer_world = [] \<and>
   lresolve (files explorer_world) [''Explorer'', ''iconcache_16.db''] =
     Inr [''Explorer'', ''iconcache_16.db''] \<and>
   node_at (files explorer_world) [''Explorer'', ''iconcache_16.db''] = Some (File 64 False True) \<and>
   lresolve (files explorer_world) [''Explorer'', ''thumbcache_96.db''] =
     Inr [''Explorer'', ''thumbcache_96.db''] \<and>
   node_at (files explorer_world) [''Explorer'', ''thumbcache_96.db''] = Some (File 200 True False) \<and>
   safe_remove_file [''Explorer'', ''thumbcache_96.db''] explorer_world =
     (Inr 200, explorer_world\<lparr>files :=
        remove_node (files explorer_world) [''Explorer'', ''thumbcache_96.db'']\<rparr>) \<and>
   faults (explorer_world\<lparr>faults := [False, False, True]\<rparr>) = [False, False, True] \<and>
   safe_remove_file [''Explorer'', ''thumbcache_96.db'']
       (explorer_world\<lparr>faults := [False, False, True]\<rparr>) =
     (Inr 0, explorer_world\<lparr>files :=
        remove_node (files explorer_world) [''Explorer'', ''thumbcache_96.db'']\<rparr>)"
proof -
  have h1: "path_exists [''Explorer'', ''nothing''] explorer_world = (Inr False, explorer_world)"
    by code_simp
  have h2: "fs_lstat (files explorer_world) [''Explorer'', ''thumbcache_link.db''] =
     Inr (Link False [''docs'', ''report.db''])"
    by code_simp
  have h3: "fst (safe_remove_file_try [''Explorer'', ''iconcache_16.db''] explorer_world) = Inl EACCES"
    by code_simp
  have h4: "faults explorer_world = []"
    by (simp add: explorer_world_def)
  have h5: "lresolve (files explorer_world) [''Explorer'', ''iconcache_16.db''] =
     Inr [''Explorer'', ''iconcache_16.db'']"
    by code_simp
  have h6: "node_at (files explorer_world) [''Explorer'', ''iconcache_16.db''] = Some (File 64 False True)"
    by code_simp
  have h7: "lresolve (files explorer_world) [''Explorer'', ''thumbcache_96.db''] =
     Inr [''Explorer'', ''thumbcache_96.db'']"
    by code_simp
  have h8: "node_at (files explorer_world) [''Explorer'', ''thumbcache_96.db''] = Some (File 200 True False)"
    by code_simp
  have h9: "faults (explorer_world\<lparr>faults := [False, False, True]\<rparr>) = [False, False, True]"
    by simp
  have h10: "lresolve (files (explorer_world\<lparr>faults := [False, False, True]\<rparr>))
       [''Explorer'', ''thumbcache_96.db''] = Inr [''Explorer'', ''thumbcache_96.db'']"
    using h7 by simp
  have h11: "node_at (files (explorer_world\<lparr>faults := [False, False, True]\<rparr>))
       [''Explorer'', ''thumbcache_96.db''] = Some (File 200 True False)"
    using h8 by simp
  note a = safe_remove_file_behaviour
    [where p = "[''Explorer'', ''nothing'']" and w = explorer_world and ?w1.0 = explorer_world]
  note b = safe_remove_file_behaviour
    [where p = "[''Explorer'', ''thumbcache_link.db'']" and w = explorer_world and dl = False
       and tgt = "[''docs'', ''report.db'']"]
  note c = safe_remove_file_behaviour
    [where p = "[''Explorer'', ''iconcache_16.db'']" and w = explorer_world and e = EACCES
       and q = "[''Explorer'', ''iconcache_16.db'']" and s = 64 and r = False]
  note d = safe_remove_file_behaviour
    [where p = "[''Explorer'', ''thumbcache_96.db'']" and w = explorer_world
       and q = "[''Explorer'', ''thumbcache_96.db'']" and s = 200 and r = True]
  note f = safe_remove_file_behaviour
    [where p = "[''Explorer'', ''thumbcache_96.db'']"
       and w = "explorer_world\<lparr>faults := [False, False, True]\<rparr>"
       and q = "[''Explorer'', ''thumbcache_96.db'']" and s = 200 and r = True]
  have r1: "safe_remove_file [''Explorer'', ''nothing''] explorer_world = (Inr 0, explorer_world)"
    using a h1 by blast
  have r2: "fst (safe_remove_file [''Explorer'', ''thumbcache_link.db''] explorer_world) = Inr 0"
    using b h2 by blast
  have r3: "fst (safe_remove_file [''Explorer'', ''iconcache_16.db''] explorer_world) = Inr 0"
    using c h3 by blast
  have r4: "safe_remove_file [''Explorer'', ''thumbcache_96.db''] explorer_world =
     (Inr 200, explorer_world\<lparr>files :=
        remove_node (files explorer_world) [''Explorer'', ''thumbcache_96.db'']\<rparr>)"
    using d h4 h7 h8 by blast
  have "safe_remove_file [''Explorer'', ''thumbcache_96.db'']
       (explorer_world\<lparr>faults := [False, False, True]\<rparr>) =
     (Inr 0, explorer_world\<lparr>faults := [False, False, True]\<rparr>
        \<lparr>files := remove_node (files (explorer_world\<lparr>faults := [False, False, True]\<rparr>))
                    [''Explorer'', ''thumbcache_96.db''], faults := []\<rparr>)"
    using f h9 h10 h11 by blast
  then have r5: "safe_remove_file [''Explorer'', ''thumbcache_96.db'']
       (explorer_world\<lparr>faults := [False, False, True]\<rparr>) =
     (Inr 0, explorer_world\<lparr>files :=
        remove_node (files explorer_world) [''Explorer'', ''thumbcache_96.db'']\<rparr>)"
    using h4 by (simp add: explorer_world_def)
  show ?thesis
    using h1 h2 h3 h4 h5 h6 h7 h8 h9 r1 r2 r3 r4 r5 by blast
qed

subsection \<open>The guards and the handlers\<close>

lemma wipe_tree_never_raises:
  "wipe_tree k p w = None \<or> (\<exists>n w'. wipe_tree k p w = Some (Inr n, w'))"
  by (simp add: wipe_tree_def split: prod.splits sum.splits option.splits)

lemma guard_raises:
  assumes "faults w = []" and "fs_stat (files w) p = Inl e" and "\<not> ignore_error e"
  shows "wipe_dir_contents k p w = Some (Inl e, w)"
    and "delete_globs fnm p patterns w = (Inl e, w)"
    and "clean_chromium_user_data k p w = Some (Inl e, w)"
  using assms
  by (simp_all add: wipe_dir_contents_def delete_globs_def clean_chromium_user_data_def
      path_exists_def os_stat_def sys_read_no_faults path_test_def)

text \<open>
  C4. \<open>safe_remove_file\<close> and \<open>wipe_tree\<close> keep every call inside a \<open>try\<close> and return a
  non-negative count whatever happens. \<open>wipe_dir_contents\<close> and \<open>delete_globs\<close> test
  \<open>path.exists()\<close> and \<open>path.is_dir()\<close> before their \<open>try\<close>: for a path inside a directory
  to which access is denied the test raises a permission error, and so does the function.
  \<open>clean_chromium_user_data\<close>, which calls \<open>wipe_dir_contents\<close> outside any \<open>try\<close>, raises
  with it. The same happens when the first system call fails with an I/O error.
\<close>

theorem wipe_dir_contents_guard_raises:
  "wipe_dir_contents 5 [''secret'', ''tmp''] links_world = Some (Inl EACCES, links_world) \<and>
   delete_globs fnmatch [''secret'', ''tmp''] [''*''] links_world = (Inl EACCES, links_world) \<and>
   clean_chromium_user_data 5 [''secret'', ''tmp''] links_world = Some (Inl EACCES, links_world) \<and>
   wipe_dir_contents 5 [''d''] (links_world\<lparr>faults := [True]\<rparr>) = Some (Inl EIO, links_world) \<and>
   safe_remove_file [''secret'', ''tmp''] links_world = (Inr 0, links_world) \<and>
   wipe_tree 5 [''secret'', ''tmp''] links_world = Some (Inr 0, links_world)"
  by code_simp

text \<open>
  C3. \<open>wipe_dir_contents\<close> skips a child that is a link, and \<open>safe_remove_file\<close> refuses
  links, so no link is followed and no target is touched or counted. But \<open>wipe_tree\<close>
  calls \<open>rmdir\<close> on every name that \<open>os.walk\<close> lists in \<open>dirs\<close>, and \<open>os.walk\<close> lists a link
  to a directory there (it only does not walk into it). On the system this program runs
  on, \<open>rmdir\<close> removes a directory link. In the example, \<open>wipe_tree\<close> on \<open>d\<close> removes the
  links \<open>d/l\<close> and \<open>d/sub/l2\<close>; \<open>wipe_dir_contents\<close> on \<open>d\<close> keeps its child \<open>d/l\<close> but
  removes \<open>d/sub/l2\<close>, which it reaches through \<open>wipe_tree\<close>. The file link \<open>d/fl\<close> and the
  targets stay, and only the 3 bytes of \<open>d/x\<close> are counted.
\<close>

theorem wipe_tree_removes_directory_links:
  "node_at (files links_world) [''d'', ''l''] = Some (Link True [''out'']) \<and>
   node_at (files links_world) [''d'', ''sub'', ''l2''] = Some (Link True [''out'']) \<and>
   wipe_tree 5 [''d''] links_world =
     Some (Inr 3,
       \<lparr>files =
          [([''out''], Dir False),
           ([''out'', ''keep''], File 7 False False),
           ([''d''], Dir False),
           ([''d'', ''fl''], Link False [''out'', ''keep'']),
           ([''secret''], Dir True),
           ([''secret'', ''tmp''], Dir False)],
        faults = []\<rparr>) \<and>
   wipe_dir_contents 5 [''d''] links_world =
     Some (Inr 3,
       \<lparr>files =
          [([''out''], Dir False),
           ([''out'', ''keep''], File 7 False False),
           ([''d''], Dir False),
           ([''d'', ''l''], Link True [''out'']),
           ([''d'', ''fl''], Link False [''out'', ''keep'']),
           ([''secret''], Dir True),
           ([''secret'', ''tmp''], Dir False)],
        faults = []\<rparr>)"
  by code_simp

subsection \<open>The cache locator\<close>

lemma collect_dirs_no_links:
  assumes "faults w = []" and "\<forall>e \<in> set es. \<not> is_Link (snd e)"
  shows "collect_dirs root es w = (map (\<lambda>e. root @ [fst e]) (filter (\<lambda>e. is_Dir (snd e)) es), w)"
  using assms
proof (induction es)
  case Nil
  show ?case by simp
next
  case (Cons en es)
  obtain name n where en: "en = (name, n)" by (cases en)
  have nl: "\<not> is_Link n" using Cons.prems en by simp
  have "collect_dirs root es w = (map (\<lambda>e. root @ [fst e]) (filter (\<lambda>e. is_Dir (snd e)) es), w)"
    using Cons by simp
  then show ?case
    using en nl by (simp add: entry_is_dir_def entry_test_def)
qed

lemma candidates_no_links:
  assumes "faults w = []" and "fs_scandir (files w) root = Inr es"
    and "\<forall>e \<in> set es. \<not> is_Link (snd e)"
  shows "candidates root w = (root # map (\<lambda>e. root @ [fst e]) (filter (\<lambda>e. is_Dir (snd e)) es), w)"
  using assms
  by (simp add: candidates_def os_scandir_def sys_read_no_faults collect_dirs_no_links)

lemma clean_chromium_missing:
  "path_exists root w = (Inr False, w1) \<Longrightarrow> clean_chromium_user_data k root w = Some (Inr 0, w1)"
  by (simp add: clean_chromium_user_data_def)

lemma clean_chromium_targets:
  "path_exists root w = (Inr True, w1) \<Longrightarrow>
   clean_chromium_user_data k root w =
     wipe_targets k (concat (map (\<lambda>base. map (\<lambda>rel. base @ rel) rels) (fst (candidates root w1))))
       0 (snd (candidates root w1))"
  by (simp add: clean_chromium_user_data_def split: prod.splits)

section \<open>Claims about the cache locator\<close>

text \<open>
  C7. When the root does not exist, \<open>clean_chromium_user_data\<close> returns 0 and touches
  nothing. Otherwise the candidates are the root followed by the entries of the root that
  are directories, and the function wipes, in order, the seven cache paths under each
  candidate. On the example with two profiles, each with a \<open>Cache\<close> folder of 1000 bytes,
  it returns 2000; the profile directories and their \<open>Cache\<close> folders are still there,
  and so is everything that is not under a cache path. A root that is missing and a root
  that is empty give 0.
\<close>

theorem clean_chromium_user_data_profiles:
  "(path_exists root w = (Inr False, w1) \<longrightarrow>
      clean_chromium_user_data k root w = Some (Inr 0, w1)) \<and>
   (path_exists root w = (Inr True, w1) \<longrightarrow>
      clean_chromium_user_data k root w =
        wipe_targets k (concat (map (\<lambda>base. map (\<lambda>rel. base @ rel) rels) (fst (candidates root w1))))
          0 (snd (candidates root w1))) \<and>
   (faults w = [] \<and> fs_scandir (files w) root = Inr es \<and> (\<forall>e \<in> set es. \<not> is_Link (snd e)) \<longrightarrow>
      candidates root w =
        (root # map (\<lambda>e. root @ [fst e]) (filter (\<lambda>e. is_Dir (snd e)) es), w)) \<and>
   clean_chromium_user_data 5 [''User Data''] profiles_world =
     Some (Inr 2000,
       \<lparr>files =
          [([''User Data''], Dir False),
           ([''User Data'', ''Local State''], File 10 False False),
           ([''User Data'', ''Default''], Dir False),
           ([''User Data'', ''Default'', ''Cache''], Dir False),
           ([''User Data'', ''Default'', ''History''], File 50 False False),
           ([''User Data'', ''Profile 1''], Dir False),
           ([''User Data'', ''Profile 1'', ''Cache''], Dir False),
           ([''Empty''], Dir False)],
        faults = []\<rparr>) \<and>
   clean_chromium_user_data 5 [''Missing''] profiles_world = Some (Inr 0, profiles_world) \<and>
   clean_chromium_user_data 5 [''Empty''] profiles_world = Some (Inr 0, profiles_world)"
proof -
  have a: "clean_chromium_user_data 5 [''User Data''] profiles_world =
     Some (Inr 2000,
       \<lparr>files =
          [([''User Data''], Dir False),
           ([''User Data'', ''Local State''], File 10 False False),
           ([''User Data'', ''Default''], Dir False),
           ([''User Data'', ''Default'', ''Cache''], Dir False),
           ([''User Data'', ''Default'', ''History''], File 50 False False),
           ([''User Data'', ''Profile 1''], Dir False),
           ([''User Data'', ''Profile 1'', ''Cache''], Dir False),
           ([''Empty''], Dir False)],
        faults = []\<rparr>)"
    by code_simp
  have b: "clean_chromium_user_data 5 [''Missing''] profiles_world = Some (Inr 0, profiles_world)"
    by code_simp
  have c: "clean_chromium_user_data 5 [''Empty''] profiles_world = Some (Inr 0, profiles_world)"
    by code_simp
  show ?thesis
    using a b c clean_chromium_missing [of root w w1 k] clean_chromium_targets [of root w w1 k]
      candidates_no_links [of w root es]
    by blast
qed

text \<open>
  The hypotheses on the example: the missing root, and the data directory, whose
  candidates are itself and its two profiles.
\<close>

theorem clean_chromium_user_data_profiles_witness:
  "path_exists [''Missing''] profiles_world = (Inr False, profiles_world) \<and>
   clean_chromium_user_data 5 [''Missing''] profiles_world = Some (Inr 0, profiles_world) \<and>
   path_exists [''User Data''] profiles_world = (Inr True, profiles_world) \<and>
   faults profiles_world = [] \<and>
   fs_scandir (files profiles_world) [''User Data''] =
     Inr [(''Local State'', File 10 False False), (''Default'', Dir False), (''Profile 1'', Dir False)] \<and>
   \<not> is_Link (File 10 False False) \<and> \<not> is_Link (Dir False) \<and>
   candidates [''User Data''] profiles_world =
     ([[''User Data''], [''User Data'', ''Default''], [''User Data'', ''Profile 1'']], profiles_world) \<and>
   clean_chromium_user_data 5 [''User Data''] profiles_world =
     wipe_targets 5
       (concat (map (\<lambda>base. map (\<lambda>rel. base @ rel) rels)
          [[''User Data''], [''User Data'', ''Default''], [''User Data'', ''Profile 1'']]))
       0 profiles_world"
proof -
  have h1: "path_exists [''Missing''] profiles_world = (Inr False, profiles_world)"
    by code_simp
  have h2: "path_exists [''User Data''] profiles_world = (Inr True, profiles_world)"
    by code_simp
  have h3: "faults profiles_world = []"
    by (simp add: profiles_world_def)
  have h4: "fs_scandir (files profiles_world) [''User Data''] =
     Inr [(''Local State'', File 10 False False), (''Default'', Dir False), (''Profile 1'', Dir False)]"
    by code_simp
  have h5: "\<forall>e \<in> set [(''Local State'', File 10 False False), (''Default'', Dir False),
              (''Profile 1'', Dir False)]. \<not> is_Link (snd e)"
    by simp
  note m = clean_chromium_user_data_profiles
    [where root = "[''Missing'']" and w = profiles_world and ?w1.0 = profiles_world and k = 5]
  note u = clean_chromium_user_data_profiles
    [where root = "[''User Data'']" and w = profiles_world and ?w1.0 = profiles_world and k = 5
       and es = "[(''Local State'', File 10 False False), (''Default'', Dir False), (''Profile 1'', Dir False)]"]
  have r1: "clean_chromium_user_data 5 [''Missing''] profiles_world = Some (Inr 0, profiles_world)"
    using m h1 by blast
  have r2: "candidates [''User Data''] profiles_world =
     ([''User Data''] # map (\<lambda>e. [''User Data''] @ [fst e])
        (filter (\<lambda>e. is_Dir (snd e))
          [(''Local State'', File 10 False False), (''Default'', Dir False), (''Profile 1'', Dir False)]),
      profiles_world)"
    using u h3 h4 h5 by blast
  then have r3: "candidates [''User Data''] profiles_world =
     ([[''User Data''], [''User Data'', ''Default''], [''User Data'', ''Profile 1'']], profiles_world)"
    by simp
  have "clean_chromium_user_data 5 [''User Data''] profiles_world =
     wipe_targets 5
       (concat (map (\<lambda>base. map (\<lambda>rel. base @ rel) rels)
          (fst (candidates [''User Data''] profiles_world))))
       0 (snd (candidates [''User Data''] profiles_world))"
    using u h2 by blast
  then have r4: "clean_chromium_user_data 5 [''User Data''] profiles_world =
     wipe_targets 5
       (concat (map (\<lambda>base. map (\<lambda>rel. base @ rel) rels)
          [[''User Data''], [''User Data'', ''Default''], [''User Data'', ''Profile 1'']]))
       0 profiles_world"
    by (simp only: r3 fst_conv snd_conv)
  have h6: "\<not> is_Link (File 10 False False) \<and> \<not> is_Link (Dir False)"
    by simp
  show ?thesis
    using h1 h2 h3 h4 h6 r1 r3 r4 by blast
qed

section \<open>Facts about plain trees\<close>

subsection \<open>Tables with entries left out\<close>

lemma map_of_filter_key:
  "map_of (filter (\<lambda>e. K (fst e)) t) q = (if K q then map_of t q else None)"
  by (induction t) auto

lemma node_at_filter_key:
  "node_at (filter (\<lambda>e. K (fst e)) t) q = (if q = [] \<or> K q then node_at t q else None)"
  by (simp add: node_at_def map_of_filter_key)

lemma node_at_wiped: "node_at (wiped t c) q = (if strict_prefix c q then None else node_at t q)"
  using node_at_filter_key [of "\<lambda>q. \<not> strict_prefix c q" t q] by (auto simp: wiped_def)




lemma distinct_filter_keys: "distinct (map fst t) \<Longrightarrow> distinct (map fst (filter P t))"
  by (rule distinct_map_filter)




subsection \<open>The predicates\<close>

















subsection \<open>Calls on canonical paths\<close>












subsection \<open>The loops of \<open>wipe_tree\<close>\<close>





subsection \<open>The walk over a plain tree\<close>





subsection \<open>\<open>wipe_tree\<close> and \<open>wipe_dir_contents\<close> on a plain tree\<close>








section \<open>Claims about emptied directories\<close>




end
